theory Spec2Isabelle
  imports Main "HOL-Library.Word"
begin

unbundle bit_operations_syntax

section \<open>Common types\<close>

text \<open>
  A record identifier is a pair of two C++ \<open>int\<close>s. No claim depends on 32-bit
  wrap-around, so they are mathematical integers. \<open>RM_NO_PAGE\<close> is the sentinel -1 and
  \<open>RM_FIRST_RECORD_PAGE\<close> is 1 (page 0 is the file header).
\<close>

datatype Rid = Rid (page_no: int) (slot_no: int)

definition RM_NO_PAGE :: int where
  "RM_NO_PAGE = -1"

definition RM_FIRST_RECORD_PAGE :: int where
  "RM_FIRST_RECORD_PAGE = 1"

type_synonym byte = "8 word"

section \<open>Lock manager (lock\_manager.cpp)\<close>

datatype LockMode = SHARED | EXLUCSIVE | INTENTION_SHARED | INTENTION_EXCLUSIVE | S_IX

datatype GroupLockMode = NON_LOCK | IS | IX | S | X | SIX

datatype TransactionState = DEFAULT | GROWING | SHRINKING | COMMITTED | ABORTED

datatype AbortReason = LOCK_ON_SHIRINKING | UPGRADE_CONFLICT

datatype LockDataType = TABLE | RECORD

text \<open>\<open>LockDataId\<close>: table file descriptor, record identifier, granularity. Equality
  covers all three fields.\<close>

datatype LockDataId = LockDataId int Rid LockDataType

record LockRequest =
  req_txn_id :: int
  req_lock_mode :: LockMode
  req_granted :: bool

text \<open>The condition variable of a queue is only ever notified, never awaited, inside the
  lock manager; it carries no state and is left out.\<close>

record LockRequestQueue =
  request_queue :: "LockRequest list"
  group_lock_mode :: GroupLockMode

type_synonym lock_table = "LockDataId \<rightharpoonup> LockRequestQueue"

datatype WType = INSERT_TUPLE | DELETE_TUPLE | UPDATE_TUPLE

record WriteRecord =
  GetWriteType :: WType
  GetTableName :: string
  GetRid :: Rid
  GetRecord :: "byte list"

text \<open>
  A transaction object. \<open>lock_set\<close> is a \<open>std::unordered_set\<close>: a duplicate-free
  list here, whose order stands for the (implementation-defined) iteration order.
  \<open>write_set\<close> is a deque of pointers, each of which may be null.
\<close>

record Transaction =
  txn_id :: int
  state :: TransactionState
  start_ts :: int
  lock_set :: "LockDataId list"
  write_set :: "WriteRecord option list"

fun to_group_lock_mode :: "LockMode \<Rightarrow> GroupLockMode" where
  "to_group_lock_mode SHARED = S"
| "to_group_lock_mode EXLUCSIVE = X"
| "to_group_lock_mode INTENTION_SHARED = IS"
| "to_group_lock_mode INTENTION_EXCLUSIVE = IX"
| "to_group_lock_mode S_IX = SIX"

text \<open>
  Modelled from the spec: the declaration of \<open>enum class GroupLockMode\<close> is in
  lock\_manager.h, which is not among the sources. \<open>is_compatible\<close> casts a group mode
  to an index into its table; the order is the one of the comment heading that table
  (NON, IS, IX, S, X, SIX).
\<close>

fun group_index :: "GroupLockMode \<Rightarrow> nat" where
  "group_index NON_LOCK = 0"
| "group_index IS = 1"
| "group_index IX = 2"
| "group_index S = 3"
| "group_index X = 4"
| "group_index SIX = 5"

definition compat :: "bool list list" where
  "compat =
    [[True, True,  True,  True,  True,  True],
     [True, True,  True,  True,  False, True],
     [True, True,  True,  False, False, False],
     [True, True,  False, True,  False, False],
     [True, False, False, False, False, False],
     [True, True,  False, False, False, False]]"

definition is_compatible :: "LockMode \<Rightarrow> LockMode \<Rightarrow> bool" where
  "is_compatible lhs rhs =
    (let l = group_index (to_group_lock_mode lhs);
         r = group_index (to_group_lock_mode rhs)
     in compat ! l ! r \<and> compat ! r ! l)"

fun priority :: "GroupLockMode \<Rightarrow> nat" where
  "priority NON_LOCK = 0"
| "priority IS = 1"
| "priority IX = 2"
| "priority S = 3"
| "priority SIX = 4"
| "priority X = 5"

text \<open>One iteration of the loop of \<open>update_group_lock_mode\<close>.\<close>

definition group_step :: "GroupLockMode \<Rightarrow> LockRequest \<Rightarrow> GroupLockMode" where
  "group_step mode req =
    (if \<not> req_granted req then mode
     else let gm = to_group_lock_mode (req_lock_mode req)
          in if priority gm > priority mode then gm else mode)"

definition update_group_lock_mode :: "LockRequestQueue \<Rightarrow> LockRequestQueue" where
  "update_group_lock_mode queue =
    queue\<lparr>group_lock_mode := foldl group_step NON_LOCK (request_queue queue)\<rparr>"

text \<open>The position of the first request of transaction \<open>tid\<close> in a queue: the iterator
  at which both \<open>lock\<close> and \<open>unlock\<close> stop their search loop.\<close>

fun find_request :: "int \<Rightarrow> LockRequest list \<Rightarrow> nat option" where
  "find_request tid [] = None"
| "find_request tid (r # rs) =
    (if req_txn_id r = tid then Some 0 else map_option Suc (find_request tid rs))"

text \<open>The inner loop of the upgrade branch: is some granted request of another
  transaction incompatible with the requested mode?\<close>

fun upgrade_conflict :: "int \<Rightarrow> LockMode \<Rightarrow> LockRequest list \<Rightarrow> bool" where
  "upgrade_conflict tid lock_mode [] = False"
| "upgrade_conflict tid lock_mode (req # rs) =
    (if req_txn_id req = tid then upgrade_conflict tid lock_mode rs
     else if req_granted req \<and> \<not> is_compatible lock_mode (req_lock_mode req) then True
     else upgrade_conflict tid lock_mode rs)"

text \<open>The loop before a new request is appended: is some granted request incompatible
  with the requested mode?\<close>

fun grant_conflict :: "LockMode \<Rightarrow> LockRequest list \<Rightarrow> bool" where
  "grant_conflict lock_mode [] = False"
| "grant_conflict lock_mode (req # rs) =
    (if req_granted req \<and> \<not> is_compatible lock_mode (req_lock_mode req) then True
     else grant_conflict lock_mode rs)"

text \<open>\<open>lock_table_[lock_data_id]\<close>: \<open>operator[]\<close> of the map inserts a
  default-constructed queue (no request, group mode \<open>NON_LOCK\<close>) when the key is absent.\<close>

definition empty_queue :: LockRequestQueue where
  "empty_queue = \<lparr>request_queue = [], group_lock_mode = NON_LOCK\<rparr>"

definition table_index :: "lock_table \<Rightarrow> LockDataId \<Rightarrow> LockRequestQueue \<times> lock_table" where
  "table_index lock_table lock_data_id =
    (case lock_table lock_data_id of
       None \<Rightarrow> (empty_queue, lock_table(lock_data_id \<mapsto> empty_queue))
     | Some queue \<Rightarrow> (queue, lock_table))"

text \<open>
  \<open>LockManager::lock\<close> for a non-null transaction. The result is the exception raised
  (\<open>Inl\<close>) or the value returned (\<open>Inr\<close>), with the lock table and the transaction as
  the call leaves them.
\<close>

definition lock_txn ::
  "lock_table \<Rightarrow> Transaction \<Rightarrow> LockDataId \<Rightarrow> LockMode
     \<Rightarrow> (AbortReason + bool) \<times> lock_table \<times> Transaction" where
  "lock_txn lock_table txn lock_data_id lock_mode =
    (if state txn = SHRINKING then (Inl LOCK_ON_SHIRINKING, lock_table, txn)
     else
       let (queue, tbl) = table_index lock_table lock_data_id;
           reqs = request_queue queue
       in case find_request (txn_id txn) reqs of
            Some i \<Rightarrow>
              let it = reqs ! i in
              if req_granted it \<and> req_lock_mode it = lock_mode then (Inr True, tbl, txn)
              else if upgrade_conflict (txn_id txn) lock_mode reqs
                then (Inl UPGRADE_CONFLICT, tbl, txn)
              else
                let queue' = update_group_lock_mode
                      (queue\<lparr>request_queue :=
                          reqs[i := it\<lparr>req_lock_mode := lock_mode, req_granted := True\<rparr>]\<rparr>)
                in (Inr True, tbl(lock_data_id \<mapsto> queue'),
                    txn\<lparr>lock_set := List.insert lock_data_id (lock_set txn)\<rparr>)
          | None \<Rightarrow>
              if grant_conflict lock_mode reqs then (Inr False, tbl, txn)
              else
                let queue' = update_group_lock_mode
                      (queue\<lparr>request_queue := reqs @
                          [\<lparr>req_txn_id = txn_id txn, req_lock_mode = lock_mode, req_granted = True\<rparr>]\<rparr>);
                    txn' = txn\<lparr>lock_set := List.insert lock_data_id (lock_set txn)\<rparr>
                in (Inr True, tbl(lock_data_id \<mapsto> queue'),
                    if state txn' = DEFAULT then txn'\<lparr>state := GROWING\<rparr> else txn'))"

text \<open>\<open>LockManager::lock\<close>: a null transaction gets \<open>false\<close> at once.\<close>

definition lock ::
  "lock_table \<Rightarrow> Transaction option \<Rightarrow> LockDataId \<Rightarrow> LockMode
     \<Rightarrow> (AbortReason + bool) \<times> lock_table \<times> Transaction option" where
  "lock lock_table txn lock_data_id lock_mode =
    (case txn of
       None \<Rightarrow> (Inr False, lock_table, None)
     | Some t \<Rightarrow>
         (case lock_txn lock_table t lock_data_id lock_mode of
            (r, tbl, t') \<Rightarrow> (r, tbl, Some t')))"

text \<open>
  \<open>LockManager::unlock\<close>, for a non-null transaction (the function reads the
  transaction's id before its null check). The first request of the transaction is erased
  from the queue; an emptied queue is dropped from the table.
\<close>

definition unlock ::
  "lock_table \<Rightarrow> Transaction \<Rightarrow> LockDataId \<Rightarrow> bool \<times> lock_table \<times> Transaction" where
  "unlock lock_table txn lock_data_id =
    (case lock_table lock_data_id of
       None \<Rightarrow> (False, lock_table, txn)
     | Some queue \<Rightarrow>
         (case find_request (txn_id txn) (request_queue queue) of
            None \<Rightarrow> (False, lock_table, txn)
          | Some i \<Rightarrow>
              let reqs = take i (request_queue queue) @ drop (Suc i) (request_queue queue);
                  txn1 = txn\<lparr>lock_set := removeAll lock_data_id (lock_set txn)\<rparr>;
                  txn2 = (if state txn1 = GROWING then txn1\<lparr>state := SHRINKING\<rparr> else txn1);
                  tbl = (if reqs = [] then lock_table(lock_data_id := None)
                         else lock_table(lock_data_id \<mapsto>
                                update_group_lock_mode (queue\<lparr>request_queue := reqs\<rparr>)))
              in (True, tbl, txn2)))"

section \<open>Record manager (rm\_file\_handle.cpp)\<close>

subsection \<open>File header, pages and the bitmap helper\<close>

record RmFileHdr =
  record_size :: int
  num_pages :: int
  num_records_per_page :: int
  first_free_page_no :: int
  bitmap_size :: int

text \<open>
  A data page: the two fields of the page header, and the bytes of the page from the
  bitmap on, up to the end of the page buffer. These bytes hold first the bitmap
  (\<open>bitmap_size\<close> bytes), then the slot array (\<open>num_records_per_page\<close> slots of
  \<open>record_size\<close> bytes each), then the rest of the page. The pointers \<open>bitmap\<close> and
  \<open>slots\<close> of a page handle, and the pointer that \<open>get_slot\<close> returns, point into
  these bytes without any check of the slot number, so a slot number past the last slot
  reads and writes the bytes that lie there, as in the C++ code.
\<close>

record RmPage =
  num_records :: int
  next_free_page_no :: int
  data :: "byte list"

text \<open>
  A file handle: the file header and the data pages of the file as the buffer pool holds
  them; page \<open>p \<ge> 1\<close> is at index \<open>p - 1\<close> (page 0 is the header). \<open>page_bytes\<close> is
  the number of bytes that a page of the buffer pool has from the bitmap on; the page size
  is a constant of the buffer pool, which is not among the sources. Pin counts and dirty
  flags are left out: no claim is about them, and the buffer pool is taken to have a frame
  for every request.
\<close>

record RmFileHandle =
  file_hdr :: RmFileHdr
  pages :: "RmPage list"
  page_bytes :: nat

text \<open>
  The exceptions of the record manager. \<open>MemoryFault\<close> is not a C++ exception. It marks a
  call that reaches for memory of which the model holds no bytes: a byte behind the end of
  the page buffer or of the caller's buffer, or a byte in front of the bitmap (a negative
  bit position, a slot array that starts in front of the bitmap), or a copy of a negative
  number of bytes. Behind the buffers the behaviour of the C++ code is undefined; in front
  of the bitmap lie the page header and what precedes it, whose layout in bytes the
  sources do not fix. The model stops such a call there. Every access to a byte between the
  start of the bitmap and the end of the page buffer is carried out.
\<close>

datatype rm_error =
    PageNotExistError int
  | RecordNotFoundError int int
  | InternalError
  | MemoryFault

text \<open>
  Modelled from the spec: the \<open>Bitmap\<close> helper is declared in a header that is not among
  the sources. It works on the bytes at the pointer \<open>bm\<close>. Bit \<open>i\<close> is set iff slot
  \<open>i\<close> holds a live record; the spec leaves open where bit \<open>i\<close> lies in the bytes, and
  the model takes byte \<open>i div 8\<close> and in it the bits from the highest down (mask
  \<open>128 >> i mod 8\<close>). \<open>init\<close> clears the first \<open>n\<close> bytes. \<open>next_bit\<close> finds the first
  position strictly after \<open>cur\<close> and below \<open>max_n\<close> whose bit equals \<open>b\<close>, and returns
  \<open>max_n\<close> when there is none (\<open>None\<close> when it leaves the bytes of the model);
  \<open>first_bit\<close> starts the search at position 0. \<open>Bitmap_in_range\<close> tells whether the
  byte of a position is one of the bytes \<open>bm\<close> of the model.
\<close>

definition Bitmap_in_range :: "byte list \<Rightarrow> int \<Rightarrow> bool" where
  "Bitmap_in_range bm pos = (0 \<le> pos \<and> pos div 8 < int (length bm))"

definition get_bucket :: "int \<Rightarrow> nat" where
  "get_bucket pos = nat (pos div 8)"

definition get_bit :: "int \<Rightarrow> byte" where
  "get_bit pos = drop_bit (nat (pos mod 8)) 128"

definition Bitmap_is_set :: "byte list \<Rightarrow> int \<Rightarrow> bool" where
  "Bitmap_is_set bm pos = ((bm ! get_bucket pos) AND get_bit pos \<noteq> 0)"

definition Bitmap_set :: "byte list \<Rightarrow> int \<Rightarrow> byte list" where
  "Bitmap_set bm pos = bm[get_bucket pos := (bm ! get_bucket pos) OR get_bit pos]"

definition Bitmap_reset :: "byte list \<Rightarrow> int \<Rightarrow> byte list" where
  "Bitmap_reset bm pos = bm[get_bucket pos := (bm ! get_bucket pos) AND NOT (get_bit pos)]"

definition Bitmap_init :: "byte list \<Rightarrow> int \<Rightarrow> byte list" where
  "Bitmap_init bm n = replicate (nat n) 0 @ drop (nat n) bm"

function next_bit :: "bool \<Rightarrow> byte list \<Rightarrow> int \<Rightarrow> int \<Rightarrow> int option" where
  "next_bit b bm max_n cur =
    (if cur + 1 < max_n then
       (if \<not> Bitmap_in_range bm (cur + 1) then None
        else if Bitmap_is_set bm (cur + 1) = b then Some (cur + 1)
        else next_bit b bm max_n (cur + 1))
     else Some max_n)"
  by pat_completeness auto
termination
  by (relation "measure (\<lambda>(b, bm, max_n, cur). nat (max_n - cur))") auto

declare next_bit.simps [simp del]

definition first_bit :: "bool \<Rightarrow> byte list \<Rightarrow> int \<Rightarrow> int option" where
  "first_bit b bm max_n = next_bit b bm max_n (-1)"

text \<open>
  Modelled from the spec: the page handle is declared in a header that is not among the
  sources. The slot array follows the bitmap, so slot \<open>slot\<close> starts \<open>slot_offset\<close>
  bytes after the start of the bitmap, and \<open>get_slot\<close> gives its \<open>record_size\<close> bytes.
  \<open>slot_in_range\<close> tells whether these bytes are bytes of the model.
\<close>

definition slot_offset :: "RmFileHdr \<Rightarrow> int \<Rightarrow> int" where
  "slot_offset hdr slot = bitmap_size hdr + slot * record_size hdr"

definition slot_in_range :: "RmFileHdr \<Rightarrow> RmPage \<Rightarrow> int \<Rightarrow> bool" where
  "slot_in_range hdr pg slot =
    (0 \<le> bitmap_size hdr \<and> bitmap_size hdr \<le> int (length (data pg)) \<and>
     0 \<le> record_size hdr \<and> 0 \<le> slot_offset hdr slot \<and>
     slot_offset hdr slot + record_size hdr \<le> int (length (data pg)))"

definition get_slot :: "RmFileHdr \<Rightarrow> RmPage \<Rightarrow> int \<Rightarrow> byte list" where
  "get_slot hdr pg slot =
    take (nat (record_size hdr)) (drop (nat (slot_offset hdr slot)) (data pg))"

text \<open>\<open>memcpy(get_slot(slot), buf, record_size)\<close>: the caller's buffer must hold
  \<open>record_size\<close> bytes.\<close>

definition buf_in_range :: "RmFileHdr \<Rightarrow> byte list \<Rightarrow> bool" where
  "buf_in_range hdr buf = (0 \<le> record_size hdr \<and> nat (record_size hdr) \<le> length buf)"

definition memcpy_slot :: "RmFileHdr \<Rightarrow> RmPage \<Rightarrow> int \<Rightarrow> byte list \<Rightarrow> RmPage" where
  "memcpy_slot hdr pg slot buf =
    pg\<lparr>data := take (nat (slot_offset hdr slot)) (data pg) @
                take (nat (record_size hdr)) buf @
                drop (nat (slot_offset hdr slot) + nat (record_size hdr)) (data pg)\<rparr>"

subsection \<open>The buffer pool, as the file handle uses it\<close>

text \<open>
  Modelled from the spec: the buffer pool manager is an external collaborator.
  \<open>fetch_page\<close> returns the page, or null when the file has no such page; \<open>new_page\<close>
  allocates the next page of the file, zero-initialised. A write through a page handle is
  a write to the page in the pool (\<open>put_page\<close>).
\<close>

definition fetch_page :: "RmFileHandle \<Rightarrow> int \<Rightarrow> RmPage option" where
  "fetch_page fh pno =
    (if 1 \<le> pno \<and> pno \<le> int (length (pages fh))
     then Some (pages fh ! nat (pno - 1)) else None)"

definition put_page :: "RmFileHandle \<Rightarrow> int \<Rightarrow> RmPage \<Rightarrow> RmFileHandle" where
  "put_page fh pno pg = fh\<lparr>pages := (pages fh)[nat (pno - 1) := pg]\<rparr>"

definition new_page_no :: "RmFileHandle \<Rightarrow> int" where
  "new_page_no fh = int (length (pages fh)) + 1"

definition new_page :: "RmFileHandle \<Rightarrow> byte list" where
  "new_page fh = replicate (page_bytes fh) 0"

subsection \<open>Page handles\<close>

definition fetch_page_handle :: "RmFileHandle \<Rightarrow> int \<Rightarrow> rm_error + RmPage" where
  "fetch_page_handle fh pno =
    (if pno < RM_FIRST_RECORD_PAGE \<or> pno \<ge> num_pages (file_hdr fh)
     then Inl (PageNotExistError pno)
     else case fetch_page fh pno of
            None \<Rightarrow> Inl (PageNotExistError pno)
          | Some pg \<Rightarrow> Inr pg)"

text \<open>
  \<open>create_new_page_handle\<close>: the bitmap of the new page is cleared, the page has no
  record, and the current head of the free list is its successor; it becomes the head, and
  the file has one page more. The handle returned is fetched again, which can fail. The
  result is the page number with the page, and the file as the call leaves it.
\<close>

definition create_new_page_handle ::
  "RmFileHandle \<Rightarrow> (rm_error + int \<times> RmPage) \<times> RmFileHandle" where
  "create_new_page_handle fh =
    (let hdr = file_hdr fh; new_no = new_page_no fh in
     if bitmap_size hdr < 0 \<or> int (page_bytes fh) < bitmap_size hdr then (Inl MemoryFault, fh)
     else
       let pg = \<lparr>num_records = 0,
                 next_free_page_no = first_free_page_no hdr,
                 data = Bitmap_init (new_page fh) (bitmap_size hdr)\<rparr>;
           fh' = fh\<lparr>pages := pages fh @ [pg],
                    file_hdr := hdr\<lparr>first_free_page_no := new_no,
                                    num_pages := num_pages hdr + 1\<rparr>\<rparr>
       in case fetch_page_handle fh' new_no of
            Inl e \<Rightarrow> (Inl e, fh')
          | Inr pg' \<Rightarrow> (Inr (new_no, pg'), fh'))"

definition create_page_handle ::
  "RmFileHandle \<Rightarrow> (rm_error + int \<times> RmPage) \<times> RmFileHandle" where
  "create_page_handle fh =
    (if first_free_page_no (file_hdr fh) = RM_NO_PAGE then create_new_page_handle fh
     else case fetch_page_handle fh (first_free_page_no (file_hdr fh)) of
            Inl e \<Rightarrow> (Inl e, fh)
          | Inr pg \<Rightarrow> (Inr (first_free_page_no (file_hdr fh), pg), fh))"

text \<open>\<open>release_page_handle\<close>: a page that was full goes to the head of the free list.\<close>

definition release_page_handle :: "RmFileHandle \<Rightarrow> int \<Rightarrow> RmPage \<Rightarrow> RmFileHandle" where
  "release_page_handle fh pno pg =
    (put_page fh pno (pg\<lparr>next_free_page_no := first_free_page_no (file_hdr fh)\<rparr>))
      \<lparr>file_hdr := (file_hdr fh)\<lparr>first_free_page_no := pno\<rparr>\<rparr>"

subsection \<open>Record operations\<close>

text \<open>\<open>get_record\<close>: the bit at \<open>slot_no\<close> is tested and the bytes at
  \<open>get_slot(slot_no)\<close> are copied, whatever the slot number.\<close>

definition get_record :: "RmFileHandle \<Rightarrow> Rid \<Rightarrow> rm_error + byte list" where
  "get_record fh rid =
    (case fetch_page_handle fh (page_no rid) of
       Inl e \<Rightarrow> Inl e
     | Inr pg \<Rightarrow>
         if \<not> Bitmap_in_range (data pg) (slot_no rid) then Inl MemoryFault
         else if \<not> Bitmap_is_set (data pg) (slot_no rid)
           then Inl (RecordNotFoundError (page_no rid) (slot_no rid))
         else if \<not> slot_in_range (file_hdr fh) pg (slot_no rid) then Inl MemoryFault
         else Inr (get_slot (file_hdr fh) pg (slot_no rid)))"

text \<open>\<open>insert_record(buf)\<close>: the record goes to the first free slot of the page that
  \<open>create_page_handle\<close> hands out; a page that becomes full leaves the head of the free
  list.\<close>

definition insert_record ::
  "RmFileHandle \<Rightarrow> byte list \<Rightarrow> (rm_error + Rid) \<times> RmFileHandle" where
  "insert_record fh buf =
    (case create_page_handle fh of
       (Inl e, fh1) \<Rightarrow> (Inl e, fh1)
     | (Inr (pno, pg), fh1) \<Rightarrow>
         let hdr = file_hdr fh1 in
         (case first_bit False (data pg) (num_records_per_page hdr) of
            None \<Rightarrow> (Inl MemoryFault, fh1)
          | Some sno \<Rightarrow>
              if sno \<ge> num_records_per_page hdr then (Inl InternalError, fh1)
              else if \<not> slot_in_range hdr pg sno \<or> \<not> buf_in_range hdr buf
                then (Inl MemoryFault, fh1)
              else
                let pg1 = memcpy_slot hdr pg sno buf;
                    pg2 = pg1\<lparr>data := Bitmap_set (data pg1) sno\<rparr>;
                    pg3 = pg2\<lparr>num_records := num_records pg2 + 1\<rparr>
                in if num_records pg3 = num_records_per_page hdr
                   then (Inr (Rid pno sno),
                         (put_page fh1 pno (pg3\<lparr>next_free_page_no := RM_NO_PAGE\<rparr>))
                           \<lparr>file_hdr := hdr\<lparr>first_free_page_no := next_free_page_no pg3\<rparr>\<rparr>)
                   else (Inr (Rid pno sno), put_page fh1 pno pg3)))"

text \<open>
  The \<open>while\<close> loop of \<open>insert_record(rid, buf)\<close> that looks for the predecessor of
  page \<open>target\<close> on the free list, starting at page \<open>prev\<close>, and links the predecessor to
  \<open>target_next\<close>, the successor of the target. The loop need not end (a cyclic list
  without the target): \<open>None\<close> is a call that does not return.
\<close>

partial_function (option) unlink_loop ::
  "RmFileHandle \<Rightarrow> int \<Rightarrow> int \<Rightarrow> int \<Rightarrow> ((rm_error + unit) \<times> RmFileHandle) option" where
  "unlink_loop fh target target_next prev =
    (if prev = RM_NO_PAGE then Some (Inr (), fh)
     else case fetch_page_handle fh prev of
            Inl e \<Rightarrow> Some (Inl e, fh)
          | Inr prev_handle \<Rightarrow>
              if next_free_page_no prev_handle = target
              then Some (Inr (),
                     put_page fh prev (prev_handle\<lparr>next_free_page_no := target_next\<rparr>))
              else unlink_loop fh target target_next (next_free_page_no prev_handle))"

declare unlink_loop.simps [code]

text \<open>\<open>insert_record(rid, buf)\<close>: the record goes to the given slot, whose bit must
  be clear; a page that becomes full is taken out of the free list, wherever it stands
  there.\<close>

definition insert_record_at ::
  "RmFileHandle \<Rightarrow> Rid \<Rightarrow> byte list \<Rightarrow> ((rm_error + unit) \<times> RmFileHandle) option" where
  "insert_record_at fh rid buf =
    (case fetch_page_handle fh (page_no rid) of
       Inl e \<Rightarrow> Some (Inl e, fh)
     | Inr pg \<Rightarrow>
         let hdr = file_hdr fh in
         if \<not> Bitmap_in_range (data pg) (slot_no rid) then Some (Inl MemoryFault, fh)
         else if Bitmap_is_set (data pg) (slot_no rid)
           then Some (Inl (RecordNotFoundError (page_no rid) (slot_no rid)), fh)
         else if \<not> slot_in_range hdr pg (slot_no rid) \<or> \<not> buf_in_range hdr buf
           then Some (Inl MemoryFault, fh)
         else
           let pg1 = memcpy_slot hdr pg (slot_no rid) buf;
               pg2 = pg1\<lparr>data := Bitmap_set (data pg1) (slot_no rid)\<rparr>;
               pg3 = pg2\<lparr>num_records := num_records pg2 + 1\<rparr>;
               fh1 = put_page fh (page_no rid) pg3
           in if num_records pg3 = num_records_per_page hdr then
                (if first_free_page_no hdr = page_no rid
                 then Some (Inr (),
                        (put_page fh1 (page_no rid) (pg3\<lparr>next_free_page_no := RM_NO_PAGE\<rparr>))
                          \<lparr>file_hdr := hdr\<lparr>first_free_page_no := next_free_page_no pg3\<rparr>\<rparr>)
                 else
                   (case unlink_loop fh1 (page_no rid) (next_free_page_no pg3)
                           (first_free_page_no hdr) of
                      None \<Rightarrow> None
                    | Some (Inl e, fh2) \<Rightarrow> Some (Inl e, fh2)
                    | Some (Inr u, fh2) \<Rightarrow>
                        Some (Inr (),
                          put_page fh2 (page_no rid) (pg3\<lparr>next_free_page_no := RM_NO_PAGE\<rparr>))))
              else Some (Inr (), fh1))"

text \<open>\<open>delete_record\<close>: the bit at \<open>slot_no\<close> is tested and cleared and the record
  count goes down, whatever the slot number.\<close>

definition delete_record :: "RmFileHandle \<Rightarrow> Rid \<Rightarrow> (rm_error + unit) \<times> RmFileHandle" where
  "delete_record fh rid =
    (case fetch_page_handle fh (page_no rid) of
       Inl e \<Rightarrow> (Inl e, fh)
     | Inr pg \<Rightarrow>
         if \<not> Bitmap_in_range (data pg) (slot_no rid) then (Inl MemoryFault, fh)
         else if \<not> Bitmap_is_set (data pg) (slot_no rid)
           then (Inl (RecordNotFoundError (page_no rid) (slot_no rid)), fh)
         else
           let was_full = (num_records pg = num_records_per_page (file_hdr fh));
               pg1 = pg\<lparr>data := Bitmap_reset (data pg) (slot_no rid)\<rparr>;
               pg2 = pg1\<lparr>num_records := num_records pg1 - 1\<rparr>
           in if was_full then (Inr (), release_page_handle fh (page_no rid) pg2)
              else (Inr (), put_page fh (page_no rid) pg2))"

definition update_record ::
  "RmFileHandle \<Rightarrow> Rid \<Rightarrow> byte list \<Rightarrow> (rm_error + unit) \<times> RmFileHandle" where
  "update_record fh rid buf =
    (case fetch_page_handle fh (page_no rid) of
       Inl e \<Rightarrow> (Inl e, fh)
     | Inr pg \<Rightarrow>
         if \<not> Bitmap_in_range (data pg) (slot_no rid) then (Inl MemoryFault, fh)
         else if \<not> Bitmap_is_set (data pg) (slot_no rid)
           then (Inl (RecordNotFoundError (page_no rid) (slot_no rid)), fh)
         else if \<not> slot_in_range (file_hdr fh) pg (slot_no rid) \<or> \<not> buf_in_range (file_hdr fh) buf
           then (Inl MemoryFault, fh)
         else (Inr (), put_page fh (page_no rid) (memcpy_slot (file_hdr fh) pg (slot_no rid) buf)))"

section \<open>Forward scan (rm\_scan.cpp)\<close>

text \<open>
  The \<open>for\<close> loop of \<open>RmScan::next\<close> from page \<open>pno\<close> on; \<open>start_page\<close> and
  \<open>start_slot\<close> are the position the scan held when \<open>next\<close> was called. The result is
  the new value of \<open>rid_\<close>, or the exception raised (\<open>rid_\<close> is then as it was).
\<close>

function scan_loop :: "RmFileHandle \<Rightarrow> int \<Rightarrow> int \<Rightarrow> int \<Rightarrow> rm_error + Rid" where
  "scan_loop fh start_page start_slot pno =
    (if pno < num_pages (file_hdr fh) then
       (case fetch_page_handle fh pno of
          Inl e \<Rightarrow> Inl e
        | Inr pg \<Rightarrow>
            let begin_slot = (if pno = start_page then start_slot else -1) in
            (case next_bit True (data pg) (num_records_per_page (file_hdr fh)) begin_slot of
               None \<Rightarrow> Inl MemoryFault
             | Some slot \<Rightarrow>
                 if slot < num_records_per_page (file_hdr fh) then Inr (Rid pno slot)
                 else scan_loop fh start_page start_slot (pno + 1)))
     else Inr (Rid RM_NO_PAGE RM_NO_PAGE))"
  by pat_completeness auto
termination
  by (relation "measure (\<lambda>(fh, start_page, start_slot, pno). nat (num_pages (file_hdr fh) - pno))")
    auto

declare scan_loop.simps [simp del]

definition RmScan_next :: "RmFileHandle \<Rightarrow> Rid \<Rightarrow> rm_error + Rid" where
  "RmScan_next fh rid =
    (if num_pages (file_hdr fh) \<le> RM_FIRST_RECORD_PAGE then Inr (Rid RM_NO_PAGE RM_NO_PAGE)
     else scan_loop fh (page_no rid) (slot_no rid) (page_no rid))"

text \<open>The constructor: position \<open>(RM_FIRST_RECORD_PAGE, -1)\<close>, then one \<open>next\<close>.\<close>

definition RmScan_init :: "RmFileHandle \<Rightarrow> rm_error + Rid" where
  "RmScan_init fh = RmScan_next fh (Rid RM_FIRST_RECORD_PAGE (-1))"

definition is_end :: "Rid \<Rightarrow> bool" where
  "is_end rid = (page_no rid = RM_NO_PAGE)"

section \<open>Specification-level notions for the lock manager\<close>

text \<open>The compatibility matrix as the specification prints it (rows IS, IX, S, SIX, X),
  to be compared with \<open>is_compatible\<close>.\<close>

fun spec_compatible :: "LockMode \<Rightarrow> LockMode \<Rightarrow> bool" where
  "spec_compatible INTENTION_SHARED m = (m \<noteq> EXLUCSIVE)"
| "spec_compatible INTENTION_EXCLUSIVE m = (m = INTENTION_SHARED \<or> m = INTENTION_EXCLUSIVE)"
| "spec_compatible SHARED m = (m = INTENTION_SHARED \<or> m = SHARED)"
| "spec_compatible S_IX m = (m = INTENTION_SHARED)"
| "spec_compatible EXLUCSIVE m = False"

text \<open>The priorities of the modes of the granted requests of a queue. The group mode
  of the specification is the strongest of them, \<open>NON_LOCK\<close> (priority 0) when none is
  granted.\<close>

definition granted_priorities :: "LockRequest list \<Rightarrow> nat set" where
  "granted_priorities rs =
     {priority (to_group_lock_mode (req_lock_mode r)) | r. r \<in> set rs \<and> req_granted r}"

text \<open>
  A history of lock-manager calls as seen by one transaction: its own \<open>lock\<close> and
  \<open>unlock\<close> calls, and in between the calls of other transactions, which may leave the
  lock table in any state (\<open>Others\<close>) but do not touch this transaction's object.
  \<open>lm_run\<close> collects the result of every call; a raised exception is caught by the
  caller and the history goes on.
\<close>

datatype lm_call = Lock LockDataId LockMode | Unlock LockDataId | Others lock_table

fun lm_run ::
  "lock_table \<Rightarrow> Transaction \<Rightarrow> lm_call list \<Rightarrow> (AbortReason + bool) list \<times> lock_table \<times> Transaction" where
  "lm_run tbl txn [] = ([], tbl, txn)"
| "lm_run tbl txn (Lock i m # cs) =
    (case lock_txn tbl txn i m of (r, tbl', txn') \<Rightarrow>
      (case lm_run tbl' txn' cs of (rs, t, x) \<Rightarrow> (r # rs, t, x)))"
| "lm_run tbl txn (Unlock i # cs) =
    (case unlock tbl txn i of (b, tbl', txn') \<Rightarrow>
      (case lm_run tbl' txn' cs of (rs, t, x) \<Rightarrow> (Inr b # rs, t, x)))"
| "lm_run tbl txn (Others tbl' # cs) =
    (case lm_run tbl' txn cs of (rs, t, x) \<Rightarrow> (Inr True # rs, t, x))"

text \<open>Concrete transactions, lock ids and queues for the examples.\<close>

definition txn0 :: Transaction where
  "txn0 = \<lparr>txn_id = 1, state = GROWING, start_ts = 0, lock_set = [], write_set = []\<rparr>"

definition id0 :: LockDataId where
  "id0 = LockDataId 3 (Rid 1 0) RECORD"

definition id1 :: LockDataId where
  "id1 = LockDataId 3 (Rid 1 1) RECORD"

definition txn_done :: Transaction where
  "txn_done = \<lparr>txn_id = 1, state = COMMITTED, start_ts = 0, lock_set = [id0], write_set = []\<rparr>"

definition tbl_held :: lock_table where
  "tbl_held = [id0 \<mapsto> \<lparr>request_queue =
      [\<lparr>req_txn_id = 1, req_lock_mode = SHARED, req_granted = True\<rparr>], group_lock_mode = S\<rparr>]"

text \<open>The requests queued for a lock id; none when the table has no queue for it.\<close>

definition queue_reqs :: "lock_table \<Rightarrow> LockDataId \<Rightarrow> LockRequest list" where
  "queue_reqs lock_table lock_data_id =
     (case lock_table lock_data_id of None \<Rightarrow> [] | Some queue \<Rightarrow> request_queue queue)"

definition req_S1 :: LockRequest where
  "req_S1 = \<lparr>req_txn_id = 1, req_lock_mode = SHARED, req_granted = True\<rparr>"

definition req_S2 :: LockRequest where
  "req_S2 = \<lparr>req_txn_id = 2, req_lock_mode = SHARED, req_granted = True\<rparr>"

definition queue_shared :: LockRequestQueue where
  "queue_shared = \<lparr>request_queue = [req_S1, req_S2], group_lock_mode = S\<rparr>"

definition queue_other :: LockRequestQueue where
  "queue_other = \<lparr>request_queue = [req_S2], group_lock_mode = S\<rparr>"

section \<open>Histories of record-manager calls\<close>

text \<open>
  A call of the file handle's interface, its result, and a history of calls on one file
  handle. A raised exception is caught by the caller and the history goes on with the
  file as the failed call left it. \<open>None\<close> is a history with a call that does not return.
\<close>

datatype rm_call =
    Get_record Rid
  | Insert_record "byte list"
  | Insert_record_at Rid "byte list"
  | Delete_record Rid
  | Update_record Rid "byte list"

datatype rm_value = Record "byte list" | Inserted Rid | Done

definition rm_step ::
  "RmFileHandle \<Rightarrow> rm_call \<Rightarrow> ((rm_error + rm_value) \<times> RmFileHandle) option" where
  "rm_step fh c =
    (case c of
       Get_record r \<Rightarrow> Some (map_sum id Record (get_record fh r), fh)
     | Insert_record buf \<Rightarrow>
         (case insert_record fh buf of (res, fh') \<Rightarrow> Some (map_sum id Inserted res, fh'))
     | Insert_record_at r buf \<Rightarrow>
         (case insert_record_at fh r buf of
            None \<Rightarrow> None
          | Some (res, fh') \<Rightarrow> Some (map_sum id (\<lambda>u. Done) res, fh'))
     | Delete_record r \<Rightarrow>
         (case delete_record fh r of (res, fh') \<Rightarrow> Some (map_sum id (\<lambda>u. Done) res, fh'))
     | Update_record r buf \<Rightarrow>
         (case update_record fh r buf of (res, fh') \<Rightarrow> Some (map_sum id (\<lambda>u. Done) res, fh')))"

fun rm_run ::
  "RmFileHandle \<Rightarrow> rm_call list \<Rightarrow> ((rm_error + rm_value) list \<times> RmFileHandle) option" where
  "rm_run fh [] = Some ([], fh)"
| "rm_run fh (c # cs) =
    (case rm_step fh c of
       None \<Rightarrow> None
     | Some (res, fh') \<Rightarrow>
         (case rm_run fh' cs of
            None \<Rightarrow> None
          | Some (rs, fh'') \<Rightarrow> Some (res # rs, fh'')))"



section \<open>The arguments of a call\<close>

text \<open>
  A record identifier that names one of the slots of a page, and a call whose arguments
  are as the interface means them: the call that changes the record at a position names a
  slot of the page, and a buffer holds at least \<open>record_size\<close> bytes. (\<open>get_record\<close>
  changes nothing, so its argument is left free.)
\<close>

definition slot_ok :: "RmFileHdr \<Rightarrow> Rid \<Rightarrow> bool" where
  "slot_ok hdr r = (0 \<le> slot_no r \<and> slot_no r < num_records_per_page hdr)"

fun call_ok :: "RmFileHdr \<Rightarrow> rm_call \<Rightarrow> bool" where
  "call_ok hdr (Get_record r) = True"
| "call_ok hdr (Insert_record buf) = buf_in_range hdr buf"
| "call_ok hdr (Insert_record_at r buf) = (slot_ok hdr r \<and> buf_in_range hdr buf)"
| "call_ok hdr (Delete_record r) = slot_ok hdr r"
| "call_ok hdr (Update_record r buf) = (slot_ok hdr r \<and> buf_in_range hdr buf)"

text \<open>
  The weaker condition that a call stays inside the page: the bit at its slot number is a
  bit of a byte of the page from the bitmap on (\<open>bit_in_page\<close>), the bytes that
  \<open>get_slot\<close> points to at its slot number are bytes of the page (\<open>slot_in_page\<close>), and
  a buffer holds at least \<open>record_size\<close> bytes. The slot number may be any number from 0
  on that leaves the call inside the page, also one past the last slot.
\<close>

definition bit_in_page :: "RmFileHandle \<Rightarrow> Rid \<Rightarrow> bool" where
  "bit_in_page fh r = (0 \<le> slot_no r \<and> slot_no r div 8 < int (page_bytes fh))"

definition slot_in_page :: "RmFileHandle \<Rightarrow> Rid \<Rightarrow> bool" where
  "slot_in_page fh r =
    (0 \<le> slot_no r \<and>
     slot_offset (file_hdr fh) (slot_no r) + record_size (file_hdr fh) \<le> int (page_bytes fh))"

fun call_in_page :: "RmFileHandle \<Rightarrow> rm_call \<Rightarrow> bool" where
  "call_in_page fh (Get_record r) = (bit_in_page fh r \<and> slot_in_page fh r)"
| "call_in_page fh (Insert_record buf) = buf_in_range (file_hdr fh) buf"
| "call_in_page fh (Insert_record_at r buf) =
     (bit_in_page fh r \<and> slot_in_page fh r \<and> buf_in_range (file_hdr fh) buf)"
| "call_in_page fh (Delete_record r) = bit_in_page fh r"
| "call_in_page fh (Update_record r buf) =
     (bit_in_page fh r \<and> slot_in_page fh r \<and> buf_in_range (file_hdr fh) buf)"

section \<open>Well-formed record files\<close>

text \<open>
  The header of a validly initialised file: records are not of negative size, a page has
  at least one slot, and the bitmap has a bit for every slot.
\<close>

definition hdr_ok :: "RmFileHdr \<Rightarrow> bool" where
  "hdr_ok hdr =
    (0 \<le> record_size hdr \<and> 1 \<le> num_records_per_page hdr \<and>
     num_records_per_page hdr \<le> 8 * bitmap_size hdr)"

text \<open>
  The layout of a validly initialised file: the header is as above, the bitmap and the
  slot array fit into a page, the file has the pages that \<open>num_pages\<close> counts (with the
  header page), and every page has the size of a page.
\<close>

definition layout_ok :: "RmFileHandle \<Rightarrow> bool" where
  "layout_ok fh =
    (hdr_ok (file_hdr fh) \<and>
     bitmap_size (file_hdr fh) +
       num_records_per_page (file_hdr fh) * record_size (file_hdr fh) \<le> int (page_bytes fh) \<and>
     num_pages (file_hdr fh) = int (length (pages fh)) + 1 \<and>
     (\<forall>pg \<in> set (pages fh). length (data pg) = page_bytes fh))"

text \<open>The bit positions of the bitmap of a page, and the population count of the
  bitmap: the number of positions whose bit is set.\<close>

definition bitmap_positions :: "RmFileHdr \<Rightarrow> int list" where
  "bitmap_positions hdr = map int [0 ..< 8 * nat (bitmap_size hdr)]"

definition popcount :: "RmFileHdr \<Rightarrow> RmPage \<Rightarrow> int" where
  "popcount hdr pg = int (length (filter (Bitmap_is_set (data pg)) (bitmap_positions hdr)))"

text \<open>The bits of the bitmap past the last slot are clear.\<close>

definition page_ok :: "RmFileHdr \<Rightarrow> RmPage \<Rightarrow> bool" where
  "page_ok hdr pg =
    (\<forall>i \<in> set (bitmap_positions hdr). num_records_per_page hdr \<le> i \<longrightarrow> \<not> Bitmap_is_set (data pg) i)"

text \<open>Invariant 2 of the specification.\<close>

definition popcount_ok :: "RmFileHandle \<Rightarrow> bool" where
  "popcount_ok fh = (\<forall>pg \<in> set (pages fh). popcount (file_hdr fh) pg = num_records pg)"

text \<open>
  The free list: the pages reached from \<open>start\<close> by following \<open>next_free_page_no\<close>, up
  to the terminator \<open>RM_NO_PAGE\<close>. At most \<open>fuel\<close> pages are followed; \<open>None\<close> is a
  list that leaves the file or does not end within the fuel. A list without repetition has
  at most as many pages as the file, which is the fuel \<open>free_list\<close> gives.
\<close>

fun walk :: "RmPage list \<Rightarrow> nat \<Rightarrow> int \<Rightarrow> int list option" where
  "walk pgs 0 p = (if p = RM_NO_PAGE then Some [] else None)"
| "walk pgs (Suc k) p =
    (if p = RM_NO_PAGE then Some []
     else if 1 \<le> p \<and> p \<le> int (length pgs)
       then map_option (Cons p) (walk pgs k (next_free_page_no (pgs ! nat (p - 1))))
     else None)"

definition free_list :: "RmFileHandle \<Rightarrow> int list option" where
  "free_list fh = walk (pages fh) (length (pages fh)) (first_free_page_no (file_hdr fh))"

text \<open>
  Invariant 1 of the specification: a data page with a free slot is on the free list
  exactly once; every other data page is not on the list and has no successor.
\<close>

definition free_list_ok :: "RmFileHandle \<Rightarrow> bool" where
  "free_list_ok fh =
    (case free_list fh of
       None \<Rightarrow> False
     | Some ps \<Rightarrow>
         (\<forall>i \<in> set [0 ..< length (pages fh)].
            (if num_records (pages fh ! i) < num_records_per_page (file_hdr fh)
             then count_list ps (int i + 1) = 1
             else int i + 1 \<notin> set ps \<and> next_free_page_no (pages fh ! i) = RM_NO_PAGE)))"

text \<open>A validly initialised file: the layout is right, in every page the bits past the
  last slot are clear, and the two invariants hold.\<close>

definition rm_wf :: "RmFileHandle \<Rightarrow> bool" where
  "rm_wf fh =
    (layout_ok fh \<and> (\<forall>pg \<in> set (pages fh). page_ok (file_hdr fh) pg) \<and>
     popcount_ok fh \<and> free_list_ok fh)"

text \<open>A file as created: the header page only, and an empty free list.\<close>

definition rm_create :: "int \<Rightarrow> int \<Rightarrow> int \<Rightarrow> nat \<Rightarrow> RmFileHandle" where
  "rm_create rec_size n bm_size pg_bytes =
    \<lparr>file_hdr = \<lparr>record_size = rec_size, num_pages = 1, num_records_per_page = n,
                 first_free_page_no = RM_NO_PAGE, bitmap_size = bm_size\<rparr>,
     pages = [], page_bytes = pg_bytes\<rparr>"

section \<open>Auxiliary notions for the proofs\<close>

text \<open>The page as \<open>insert_record\<close> leaves it before it looks at the free list: the
  record is in the slot, the bit is set, the count is one more.\<close>

definition write_page :: "RmFileHdr \<Rightarrow> RmPage \<Rightarrow> int \<Rightarrow> byte list \<Rightarrow> RmPage" where
  "write_page hdr pg s buf =
    (memcpy_slot hdr pg s buf)
      \<lparr>data := Bitmap_set (data (memcpy_slot hdr pg s buf)) s,
       num_records := num_records pg + 1\<rparr>"

text \<open>The file as a successful \<open>insert_record\<close> leaves it, when \<open>create_page_handle\<close>
  has left the file \<open>fh1\<close> and handed out page \<open>pno\<close>, and the free slot is \<open>sno\<close>.\<close>

definition insert_result :: "RmFileHandle \<Rightarrow> int \<Rightarrow> RmPage \<Rightarrow> int \<Rightarrow> byte list \<Rightarrow> RmFileHandle" where
  "insert_result fh1 pno pg sno buf =
    (let hdr = file_hdr fh1;
         pg3 = write_page hdr pg sno buf
     in if num_records pg + 1 = num_records_per_page hdr
        then (put_page fh1 pno (pg3\<lparr>next_free_page_no := RM_NO_PAGE\<rparr>))
               \<lparr>file_hdr := hdr\<lparr>first_free_page_no := next_free_page_no pg\<rparr>\<rparr>
        else put_page fh1 pno pg3)"

text \<open>What \<open>get_record\<close> does with the page it fetched.\<close>

definition page_record :: "RmFileHdr \<Rightarrow> RmPage \<Rightarrow> Rid \<Rightarrow> rm_error + byte list" where
  "page_record hdr pg r =
    (if \<not> Bitmap_in_range (data pg) (slot_no r) then Inl MemoryFault
     else if \<not> Bitmap_is_set (data pg) (slot_no r)
       then Inl (RecordNotFoundError (page_no r) (slot_no r))
     else if \<not> slot_in_range hdr pg (slot_no r) then Inl MemoryFault
     else Inr (get_slot hdr pg (slot_no r)))"

text \<open>The successor of page \<open>p\<close> on the free list, and the page with number \<open>p\<close>.\<close>

definition page_at :: "RmPage list \<Rightarrow> int \<Rightarrow> RmPage" where
  "page_at pgs p = pgs ! nat (p - 1)"

definition nxt :: "RmPage list \<Rightarrow> int \<Rightarrow> int" where
  "nxt pgs p = next_free_page_no (page_at pgs p)"

text \<open>\<open>fl_path nx n start ps\<close>: following the successor function \<open>nx\<close> from \<open>start\<close>
  visits exactly the pages \<open>ps\<close>, all of them among the \<open>n\<close> data pages, and then
  reaches the terminator.\<close>

fun fl_path :: "(int \<Rightarrow> int) \<Rightarrow> nat \<Rightarrow> int \<Rightarrow> int list \<Rightarrow> bool" where
  "fl_path nx n start [] = (start = RM_NO_PAGE)"
| "fl_path nx n start (p # ps) =
     (start = p \<and> 1 \<le> p \<and> p \<le> int n \<and> fl_path nx n (nx p) ps)"

text \<open>The free list of the file is \<open>ps\<close>, and it is as invariant 1 of the specification
  wants it.\<close>

definition free_inv :: "RmFileHandle \<Rightarrow> int list \<Rightarrow> bool" where
  "free_inv fh ps =
    (fl_path (nxt (pages fh)) (length (pages fh)) (first_free_page_no (file_hdr fh)) ps \<and>
     distinct ps \<and>
     (\<forall>p. 1 \<le> p \<and> p \<le> int (length (pages fh)) \<longrightarrow>
        (p \<in> set ps \<longleftrightarrow>
           num_records (page_at (pages fh) p) < num_records_per_page (file_hdr fh)) \<and>
        (p \<notin> set ps \<longrightarrow> nxt (pages fh) p = RM_NO_PAGE)))"

text \<open>Invariant 1 over a successor function \<open>nx\<close> and a record count \<open>cnt\<close> per page
  number, for a file of \<open>len\<close> data pages with \<open>n\<close> slots each, whose free list starts
  at \<open>first\<close>.\<close>

definition fl_ok ::
  "(int \<Rightarrow> int) \<Rightarrow> (int \<Rightarrow> int) \<Rightarrow> int \<Rightarrow> nat \<Rightarrow> int \<Rightarrow> int list \<Rightarrow> bool" where
  "fl_ok nx cnt first len n ps =
    (fl_path nx len first ps \<and> distinct ps \<and>
     (\<forall>p. 1 \<le> p \<and> p \<le> int len \<longrightarrow>
        (p \<in> set ps \<longleftrightarrow> cnt p < n) \<and> (p \<notin> set ps \<longrightarrow> nx p = RM_NO_PAGE)))"

text \<open>A file with the right layout whose free list is \<open>ps\<close> and satisfies invariant 1.\<close>

definition rm_inv :: "RmFileHandle \<Rightarrow> int list \<Rightarrow> bool" where
  "rm_inv fh ps = (layout_ok fh \<and> free_inv fh ps)"

text \<open>In every page the bits past the last slot are clear and the record count is
  right.\<close>

definition pages_inv :: "RmFileHdr \<Rightarrow> RmPage list \<Rightarrow> bool" where
  "pages_inv hdr pgs =
    (\<forall>pg \<in> set pgs. page_ok hdr pg \<and> popcount hdr pg = num_records pg)"

text \<open>A new page at the end of the file, as \<open>create_new_page_handle\<close> makes it.\<close>

definition fresh_page :: "RmFileHandle \<Rightarrow> RmPage" where
  "fresh_page fh =
    \<lparr>num_records = 0, next_free_page_no = first_free_page_no (file_hdr fh),
     data = Bitmap_init (new_page fh) (bitmap_size (file_hdr fh))\<rparr>"

definition add_page :: "RmFileHandle \<Rightarrow> RmFileHandle" where
  "add_page fh =
    fh\<lparr>pages := pages fh @ [fresh_page fh],
       file_hdr := (file_hdr fh)\<lparr>first_free_page_no := new_page_no fh,
                                  num_pages := num_pages (file_hdr fh) + 1\<rparr>\<rparr>"

text \<open>The bytes of a page after \<open>n\<close> bytes are copied to offset \<open>off\<close>.\<close>

definition write_bytes :: "byte list \<Rightarrow> nat \<Rightarrow> byte list \<Rightarrow> byte list" where
  "write_bytes d off xs = take off d @ xs @ drop (off + length xs) d"

text \<open>Two states of a file with the same record size, slots per page, bitmap size and
  page size: no call changes these.\<close>

definition same_params :: "RmFileHandle \<Rightarrow> RmFileHandle \<Rightarrow> bool" where
  "same_params fh fh' =
    (record_size (file_hdr fh') = record_size (file_hdr fh) \<and>
     num_records_per_page (file_hdr fh') = num_records_per_page (file_hdr fh) \<and>
     bitmap_size (file_hdr fh') = bitmap_size (file_hdr fh) \<and>
     page_bytes fh' = page_bytes fh)"

text \<open>The part of a page that the records and the record count live in, and these parts
  for all pages of a file: the free list does not touch them.\<close>

definition page_core :: "RmPage \<Rightarrow> byte list \<times> int" where
  "page_core pg = (data pg, num_records pg)"

definition cores :: "RmFileHandle \<Rightarrow> (byte list \<times> int) list" where
  "cores fh = map page_core (pages fh)"

section \<open>Example files\<close>

text \<open>Concrete files for the examples: an empty file with records of 2 bytes, 3 slots
  per page, a bitmap of one byte and pages of 32 bytes from the bitmap on, and the same
  file after one insert.\<close>

definition fh_empty :: RmFileHandle where
  "fh_empty = rm_create 2 3 1 32"

definition fh_one :: RmFileHandle where
  "fh_one =
    \<lparr>file_hdr = \<lparr>record_size = 2, num_pages = 2, num_records_per_page = 3,
                 first_free_page_no = 1, bitmap_size = 1\<rparr>,
     pages = [\<lparr>num_records = 1, next_free_page_no = -1,
               data = [128, 65, 65] @ replicate 29 0\<rparr>],
     page_bytes = 32\<rparr>"


text \<open>A longer history: a page is filled, a second page is allocated, and a record of
  the full page is deleted and put back.\<close>

definition calls_fill :: "rm_call list" where
  "calls_fill =
    [Insert_record [65, 65], Insert_record [66, 66], Insert_record [67, 67],
     Insert_record [68, 68], Delete_record (Rid 1 1), Delete_record (Rid 2 0),
     Insert_record_at (Rid 1 1) [66, 66], Update_record (Rid 1 0) [69, 69]]"

text \<open>Histories with a slot number past the last slot: bit 9 of a page lies in the
  first byte of slot 0, and the bits 5 and 6 are bits of the bitmap that belong to no
  slot.\<close>

definition calls_past :: "rm_call list" where
  "calls_past = [Delete_record (Rid 1 9)]"


text \<open>The file \<open>fh_one\<close> after \<open>delete_record\<close> at slot number 9 of page 1: a bit
  of the record in slot 0 is cleared, and the page counts no record.\<close>

definition fh_past :: RmFileHandle where
  "fh_past =
    \<lparr>file_hdr = \<lparr>record_size = 2, num_pages = 2, num_records_per_page = 3,
                 first_free_page_no = 1, bitmap_size = 1\<rparr>,
     pages = [\<lparr>num_records = 0, next_free_page_no = -1,
               data = [128, 1, 65] @ replicate 29 0\<rparr>],
     page_bytes = 32\<rparr>"


section \<open>Lock manager: properties\<close>

lemma is_compatible_spec: "is_compatible a b = spec_compatible a b"
  by (cases a; cases b; simp add: is_compatible_def compat_def)

lemma find_request_None: "find_request tid rs = None \<longleftrightarrow> (\<forall>r\<in>set rs. req_txn_id r \<noteq> tid)"
  by (induction rs) auto

lemma find_request_Some:
  "find_request tid rs = Some i \<Longrightarrow>
     i < length rs \<and> req_txn_id (rs ! i) = tid \<and> (\<forall>j<i. req_txn_id (rs ! j) \<noteq> tid)"
proof (induction rs arbitrary: i)
  case Nil
  then show ?case by simp
next
  case (Cons r rs)
  show ?case
  proof (cases "req_txn_id r = tid")
    case True
    with Cons.prems show ?thesis by simp
  next
    case False
    with Cons.prems obtain j where j: "find_request tid rs = Some j" "i = Suc j"
      by auto
    from Cons.IH [OF j(1)] j(2) False show ?thesis
      by (auto simp: less_Suc_eq_0_disj)
  qed
qed

lemma upgrade_conflict_iff:
  "upgrade_conflict tid m rs \<longleftrightarrow>
     (\<exists>r\<in>set rs. req_txn_id r \<noteq> tid \<and> req_granted r \<and> \<not> is_compatible m (req_lock_mode r))"
  by (induction rs) auto

lemma grant_conflict_iff:
  "grant_conflict m rs \<longleftrightarrow> (\<exists>r\<in>set rs. req_granted r \<and> \<not> is_compatible m (req_lock_mode r))"
  by (induction rs) auto

lemma granted_priorities_Nil: "granted_priorities [] = {}"
  by (simp add: granted_priorities_def)

lemma granted_priorities_Cons:
  "granted_priorities (r # rs) =
    (if req_granted r then insert (priority (to_group_lock_mode (req_lock_mode r))) (granted_priorities rs)
     else granted_priorities rs)"
  by (auto simp: granted_priorities_def)

lemma finite_granted_priorities: "finite (granted_priorities rs)"
  by (induction rs) (simp_all add: granted_priorities_Nil granted_priorities_Cons)

lemma foldl_group_step:
  "priority (foldl group_step m rs) = Max (insert (priority m) (granted_priorities rs))"
proof (induction rs arbitrary: m)
  case Nil
  then show ?case by (simp add: granted_priorities_Nil)
next
  case (Cons r rs)
  show ?case
  proof (cases "req_granted r")
    case False
    then have "group_step m r = m" by (simp add: group_step_def)
    with False show ?thesis by (simp add: Cons.IH granted_priorities_Cons)
  next
    case True
    let ?p = "priority (to_group_lock_mode (req_lock_mode r))"
    have fin: "finite (granted_priorities rs)" by (rule finite_granted_priorities)
    have ge: "\<And>x A. finite A \<Longrightarrow> (x::nat) \<le> Max (insert x A)"
      by simp
    have ins: "\<And>x y A. finite A \<Longrightarrow> Max (insert (x::nat) (insert y A)) = max x (Max (insert y A))"
      by (rule Max_insert) auto
    show ?thesis
    proof (cases "?p > priority m")
      case gt: True
      from gt True have st: "group_step m r = to_group_lock_mode (req_lock_mode r)"
        by (simp add: group_step_def)
      from gt ge [OF fin, of ?p] have "max (priority m) (Max (insert ?p (granted_priorities rs))) = Max (insert ?p (granted_priorities rs))"
        by (simp add: max_def)
      with ins [OF fin, of "priority m" ?p] True show ?thesis
        by (simp only: foldl_Cons st Cons.IH granted_priorities_Cons if_True)
    next
      case le: False
      from le True have st: "group_step m r = m"
        by (simp add: group_step_def)
      from le ge [OF fin, of "priority m"] have "max ?p (Max (insert (priority m) (granted_priorities rs))) = Max (insert (priority m) (granted_priorities rs))"
        by (simp add: max_def)
      with ins [OF fin, of ?p "priority m"] True show ?thesis
        by (simp only: foldl_Cons st Cons.IH granted_priorities_Cons if_True insert_commute [of "priority m" ?p])
    qed
  qed
qed

lemma request_queue_update_group:
  "request_queue (update_group_lock_mode q) = request_queue q"
  by (simp add: update_group_lock_mode_def)

lemma group_mode_recomputed:
  "priority (group_lock_mode (update_group_lock_mode q)) =
     Max (insert 0 (granted_priorities (request_queue (update_group_lock_mode q))))"
  by (simp add: update_group_lock_mode_def foldl_group_step)

lemma lock_txn_shrinking:
  "state txn = SHRINKING \<Longrightarrow> lock_txn tbl txn i m = (Inl LOCK_ON_SHIRINKING, tbl, txn)"
  by (simp add: lock_txn_def)

lemma unlock_state:
  "unlock tbl txn i = (b, tbl', txn') \<Longrightarrow>
     state txn' = (if b \<and> state txn = GROWING then SHRINKING else state txn)"
  by (auto simp: unlock_def Let_def split: option.splits if_splits)

lemma lm_run_shrinking:
  "state txn = SHRINKING \<Longrightarrow> k < length calls \<Longrightarrow> calls ! k = Lock i m \<Longrightarrow>
     fst (lm_run tbl txn calls) ! k = Inl LOCK_ON_SHIRINKING"
proof (induction tbl txn calls arbitrary: k rule: lm_run.induct)
  case (1 tbl txn)
  then show ?case by simp
next
  case (2 tbl txn j n cs)
  have st: "lock_txn tbl txn j n = (Inl LOCK_ON_SHIRINKING, tbl, txn)"
    using "2.prems"(1) by (rule lock_txn_shrinking)
  show ?case
  proof (cases k)
    case 0
    then show ?thesis by (simp add: st split: prod.splits)
  next
    case (Suc k')
    with "2.prems" have "fst (lm_run tbl txn cs) ! k' = Inl LOCK_ON_SHIRINKING"
      using "2.IH" [OF st [symmetric] refl, of k'] by simp
    with Suc show ?thesis by (auto simp: st split: prod.splits)
  qed
next
  case (3 tbl txn j cs)
  obtain b tbl' txn' where u: "unlock tbl txn j = (b, tbl', txn')"
    by (cases "unlock tbl txn j") auto
  from unlock_state [OF u] "3.prems"(1) have st': "state txn' = SHRINKING" by simp
  show ?case
  proof (cases k)
    case 0
    with "3.prems" show ?thesis by simp
  next
    case (Suc k')
    with "3.prems" st' have "fst (lm_run tbl' txn' cs) ! k' = Inl LOCK_ON_SHIRINKING"
      using "3.IH" [OF u [symmetric] refl, of k'] by simp
    with Suc show ?thesis by (auto simp: u split: prod.splits)
  qed
next
  case (4 tbl txn tbl' cs)
  show ?case
  proof (cases k)
    case 0
    with "4.prems" show ?thesis by simp
  next
    case (Suc k')
    with "4.prems" have "fst (lm_run tbl' txn cs) ! k' = Inl LOCK_ON_SHIRINKING"
      using "4.IH" [of k'] by simp
    with Suc show ?thesis by (auto split: prod.splits)
  qed
qed

text \<open>
  Claim C4, as amended. Once an \<open>unlock\<close> call of a transaction in state
  \<open>GROWING\<close> or \<open>SHRINKING\<close> returns \<open>true\<close> (a lock was released), the
  transaction is in state \<open>SHRINKING\<close>, and in every later history of lock-manager calls
  (its own \<open>lock\<close> and \<open>unlock\<close> calls, interleaved with other transactions'
  changes to the lock table) each of its \<open>lock\<close> calls raises
  \<open>TransactionAbort{LOCK_ON_SHRINKING}\<close>.
\<close>

theorem strict_2pl_after_release:
  assumes "state txn = GROWING \<or> state txn = SHRINKING"
    and "unlock tbl txn i = (True, tbl', txn')"
  shows "state txn' = SHRINKING \<and>
    (\<forall>calls k j m. k < length calls \<longrightarrow> calls ! k = Lock j m \<longrightarrow>
        fst (lm_run tbl' txn' calls) ! k = Inl LOCK_ON_SHIRINKING)"
proof -
  from unlock_state [OF assms(2)] assms(1) have st: "state txn' = SHRINKING" by auto
  with lm_run_shrinking show ?thesis by blast
qed

text \<open>
  Claim C4 as stated fails: an \<open>unlock\<close> call that finds no request of the transaction
  returns \<open>false\<close> and leaves a \<open>GROWING\<close> transaction as it is, and a release by
  a transaction that is not \<open>GROWING\<close> (here \<open>COMMITTED\<close>) does not start a shrinking
  phase; in both cases the next \<open>lock\<close> call is granted.
\<close>

theorem lock_after_unlock_counterexample:
  "fst (unlock Map.empty txn0 id0) = False \<and>
   fst (lock_txn (fst (snd (unlock Map.empty txn0 id0))) (snd (snd (unlock Map.empty txn0 id0)))
          id1 SHARED) = Inr True \<and>
   fst (unlock tbl_held txn_done id0) = True \<and>
   fst (lock_txn (fst (snd (unlock tbl_held txn_done id0))) (snd (snd (unlock tbl_held txn_done id0)))
          id1 SHARED) = Inr True"
  by (simp add: unlock_def lock_txn_def txn0_def txn_done_def tbl_held_def id0_def id1_def
        table_index_def empty_queue_def)

theorem strict_2pl_after_release_witness:
  "state (txn_done\<lparr>state := GROWING\<rparr>) = GROWING \<and>
   fst (unlock tbl_held (txn_done\<lparr>state := GROWING\<rparr>) id0) = True \<and>
   state (snd (snd (unlock tbl_held (txn_done\<lparr>state := GROWING\<rparr>) id0))) = SHRINKING \<and>
   fst (lm_run (fst (snd (unlock tbl_held (txn_done\<lparr>state := GROWING\<rparr>) id0)))
          (snd (snd (unlock tbl_held (txn_done\<lparr>state := GROWING\<rparr>) id0)))
          [Unlock id1, Lock id1 SHARED]) ! 1 = Inl LOCK_ON_SHIRINKING"
proof -
  let ?t = "txn_done\<lparr>state := GROWING\<rparr>"
  let ?u = "unlock tbl_held ?t id0"
  have st: "state ?t = GROWING \<or> state ?t = SHRINKING" by simp
  have u: "?u = (True, fst (snd ?u), snd (snd ?u))"
    by (simp add: unlock_def txn_done_def tbl_held_def id0_def)
  note th = strict_2pl_after_release [OF st u]
  from th have "state (snd (snd ?u)) = SHRINKING"
    by (rule conjunct1)
  moreover have "fst (lm_run (fst (snd ?u)) (snd (snd ?u)) [Unlock id1, Lock id1 SHARED]) ! 1
           = Inl LOCK_ON_SHIRINKING"
    by (rule th [THEN conjunct2, rule_format, of 1 _ id1 SHARED]) simp_all
  moreover have "fst ?u = True" using u by (metis fst_conv)
  ultimately show ?thesis by simp
qed

text \<open>
  Claim C5. When \<open>lock\<close> finds a request of the transaction in the queue (the first one,
  at position \<open>i\<close>) that is not a granted request of the requested mode, it raises
  \<open>TransactionAbort{UPGRADE_CONFLICT}\<close>, changing nothing, if and only if some granted
  request of another transaction is incompatible with the requested mode by the
  specification's matrix; otherwise it returns \<open>true\<close>, the request at \<open>i\<close> has the
  requested mode and is granted, the queue's group mode is the strongest granted mode, and
  the lock id is in the transaction's lock set.
\<close>

theorem lock_upgrade:
  assumes "state txn \<noteq> SHRINKING"
    and "lock_table lock_data_id = Some queue"
    and "find_request (txn_id txn) (request_queue queue) = Some i"
    and "\<not> (req_granted (request_queue queue ! i) \<and>
            req_lock_mode (request_queue queue ! i) = lock_mode)"
  shows "(if \<exists>req \<in> set (request_queue queue).
              req_txn_id req \<noteq> txn_id txn \<and> req_granted req \<and>
              \<not> spec_compatible lock_mode (req_lock_mode req)
          then lock (lock_table) (Some txn) lock_data_id lock_mode =
                 (Inl UPGRADE_CONFLICT, lock_table, Some txn)
          else \<exists>queue'.
                 lock lock_table (Some txn) lock_data_id lock_mode =
                   (Inr True, lock_table(lock_data_id \<mapsto> queue'),
                    Some (txn\<lparr>lock_set := List.insert lock_data_id (lock_set txn)\<rparr>)) \<and>
                 request_queue queue' = (request_queue queue)
                   [i := (request_queue queue ! i)\<lparr>req_lock_mode := lock_mode, req_granted := True\<rparr>] \<and>
                 priority (group_lock_mode queue') =
                   Max (insert 0 (granted_priorities (request_queue queue'))))"
proof -
  let ?conf = "\<exists>req \<in> set (request_queue queue).
              req_txn_id req \<noteq> txn_id txn \<and> req_granted req \<and>
              \<not> spec_compatible lock_mode (req_lock_mode req)"
  have c: "upgrade_conflict (txn_id txn) lock_mode (request_queue queue) = ?conf"
    by (simp add: upgrade_conflict_iff is_compatible_spec)
  have ti: "table_index lock_table lock_data_id = (queue, lock_table)"
    using assms(2) by (simp add: table_index_def)
  have ng: "(req_granted (request_queue queue ! i) \<and>
            req_lock_mode (request_queue queue ! i) = lock_mode) = False"
    using assms(4) by simp
  show ?thesis
  proof (cases ?conf)
    case True
    with c have "upgrade_conflict (txn_id txn) lock_mode (request_queue queue)" by simp
    with assms(1,3) True show ?thesis
      by (simp add: lock_def lock_txn_def ti Let_def ng)
  next
    case False
    with c have nc: "\<not> upgrade_conflict (txn_id txn) lock_mode (request_queue queue)" by simp
    let ?q = "update_group_lock_mode (queue\<lparr>request_queue := (request_queue queue)
                   [i := (request_queue queue ! i)\<lparr>req_lock_mode := lock_mode, req_granted := True\<rparr>]\<rparr>)"
    have a: "lock lock_table (Some txn) lock_data_id lock_mode =
            (Inr True, lock_table(lock_data_id \<mapsto> ?q),
             Some (txn\<lparr>lock_set := List.insert lock_data_id (lock_set txn)\<rparr>))"
      using assms(1,3) nc by (simp add: lock_def lock_txn_def ti Let_def ng)
    have b: "request_queue ?q = (request_queue queue)
                   [i := (request_queue queue ! i)\<lparr>req_lock_mode := lock_mode, req_granted := True\<rparr>]"
      by (simp add: request_queue_update_group)
    have c: "priority (group_lock_mode ?q) = Max (insert 0 (granted_priorities (request_queue ?q)))"
      by (rule group_mode_recomputed)
    from False show ?thesis
      by (simp only: if_False) (rule exI [where x = "?q"], intro conjI a b c)
  qed
qed

text \<open>
  Claim C6. When the transaction is not \<open>SHRINKING\<close> and has no request in the queue
  of the lock id, \<open>lock\<close> returns \<open>false\<close>, with the lock table and the transaction
  unchanged, if and only if some granted request is incompatible with the requested mode by
  the specification's matrix; otherwise it returns \<open>true\<close>, a granted request of the
  transaction is appended to the queue, the group mode is the strongest granted mode, the
  lock id is in the lock set, and a \<open>DEFAULT\<close> transaction is now \<open>GROWING\<close>.
\<close>

theorem lock_new_request:
  assumes "state txn \<noteq> SHRINKING"
    and "\<forall>req \<in> set (queue_reqs lock_table lock_data_id). req_txn_id req \<noteq> txn_id txn"
  shows "(if \<exists>req \<in> set (queue_reqs lock_table lock_data_id).
              req_granted req \<and> \<not> spec_compatible lock_mode (req_lock_mode req)
          then lock lock_table (Some txn) lock_data_id lock_mode = (Inr False, lock_table, Some txn)
          else \<exists>queue'.
                 lock lock_table (Some txn) lock_data_id lock_mode =
                   (Inr True, lock_table(lock_data_id \<mapsto> queue'),
                    Some (txn\<lparr>lock_set := List.insert lock_data_id (lock_set txn),
                              state := (if state txn = DEFAULT then GROWING else state txn)\<rparr>)) \<and>
                 request_queue queue' = queue_reqs lock_table lock_data_id @
                   [\<lparr>req_txn_id = txn_id txn, req_lock_mode = lock_mode, req_granted = True\<rparr>] \<and>
                 priority (group_lock_mode queue') =
                   Max (insert 0 (granted_priorities (request_queue queue'))))"
proof -
  let ?reqs = "queue_reqs lock_table lock_data_id"
  let ?conf = "\<exists>req \<in> set ?reqs. req_granted req \<and> \<not> spec_compatible lock_mode (req_lock_mode req)"
  obtain queue tbl where ti: "table_index lock_table lock_data_id = (queue, tbl)"
    by (cases "table_index lock_table lock_data_id") auto
  have rq: "request_queue queue = ?reqs"
    using ti by (auto simp: table_index_def queue_reqs_def empty_queue_def split: option.splits)
  have fr: "find_request (txn_id txn) (request_queue queue) = None"
    using assms(2) by (simp add: rq find_request_None)
  have c: "grant_conflict lock_mode (request_queue queue) = ?conf"
    by (simp add: rq grant_conflict_iff is_compatible_spec)
  show ?thesis
  proof (cases ?conf)
    case True
    then have "?reqs \<noteq> []" by auto
    then have "tbl = lock_table"
      using ti by (auto simp: table_index_def queue_reqs_def split: option.splits)
    moreover from c True have "grant_conflict lock_mode (request_queue queue)" by simp
    ultimately show ?thesis using True assms(1) fr
      by (simp add: lock_def lock_txn_def ti Let_def)
  next
    case False
    with c have nc: "\<not> grant_conflict lock_mode (request_queue queue)" by simp
    let ?q = "update_group_lock_mode (queue\<lparr>request_queue := request_queue queue @
                [\<lparr>req_txn_id = txn_id txn, req_lock_mode = lock_mode, req_granted = True\<rparr>]\<rparr>)"
    have upd: "tbl(lock_data_id \<mapsto> ?q) = lock_table(lock_data_id \<mapsto> ?q)"
      using ti by (auto simp: table_index_def split: option.splits)
    have a: "lock lock_table (Some txn) lock_data_id lock_mode =
            (Inr True, lock_table(lock_data_id \<mapsto> ?q),
             Some (txn\<lparr>lock_set := List.insert lock_data_id (lock_set txn),
                       state := (if state txn = DEFAULT then GROWING else state txn)\<rparr>))"
      using assms(1) nc fr upd by (simp add: lock_def lock_txn_def ti Let_def)
    have b: "request_queue ?q = ?reqs @
                [\<lparr>req_txn_id = txn_id txn, req_lock_mode = lock_mode, req_granted = True\<rparr>]"
      by (simp add: request_queue_update_group rq)
    have c: "priority (group_lock_mode ?q) = Max (insert 0 (granted_priorities (request_queue ?q)))"
      by (rule group_mode_recomputed)
    from False show ?thesis
      by (simp only: if_False) (rule exI [where x = "?q"], intro conjI a b c)
  qed
qed

theorem lock_upgrade_witness:
  "lock [id0 \<mapsto> queue_shared] (Some txn0) id0 EXLUCSIVE =
     (Inl UPGRADE_CONFLICT, [id0 \<mapsto> queue_shared], Some txn0) \<and>
   (\<exists>queue'. lock tbl_held (Some txn0) id0 EXLUCSIVE =
       (Inr True, tbl_held(id0 \<mapsto> queue'), Some (txn0\<lparr>lock_set := [id0]\<rparr>)) \<and>
       request_queue queue' = [\<lparr>req_txn_id = 1, req_lock_mode = EXLUCSIVE, req_granted = True\<rparr>] \<and>
       priority (group_lock_mode queue') = 5)"
proof -
  have "lock [id0 \<mapsto> queue_shared] (Some txn0) id0 EXLUCSIVE =
     (Inl UPGRADE_CONFLICT, [id0 \<mapsto> queue_shared], Some txn0)"
    using lock_upgrade [of txn0 "[id0 \<mapsto> queue_shared]" id0 queue_shared 0 EXLUCSIVE]
    by (simp add: txn0_def queue_shared_def req_S1_def req_S2_def)
  moreover have "\<exists>queue'. lock tbl_held (Some txn0) id0 EXLUCSIVE =
       (Inr True, tbl_held(id0 \<mapsto> queue'), Some (txn0\<lparr>lock_set := [id0]\<rparr>)) \<and>
       request_queue queue' = [\<lparr>req_txn_id = 1, req_lock_mode = EXLUCSIVE, req_granted = True\<rparr>] \<and>
       priority (group_lock_mode queue') = 5"
    using lock_upgrade [of txn0 tbl_held id0
        "\<lparr>request_queue = [req_S1], group_lock_mode = S\<rparr>" 0 EXLUCSIVE]
    by (auto simp: txn0_def tbl_held_def req_S1_def granted_priorities_Cons granted_priorities_Nil)
  ultimately show ?thesis by simp
qed

theorem lock_new_request_witness:
  "lock [id0 \<mapsto> queue_other] (Some txn0) id0 EXLUCSIVE =
     (Inr False, [id0 \<mapsto> queue_other], Some txn0) \<and>
   (\<exists>queue'. lock [id0 \<mapsto> queue_other] (Some (txn0\<lparr>state := DEFAULT\<rparr>)) id0 INTENTION_SHARED =
       (Inr True, [id0 \<mapsto> queue_other](id0 \<mapsto> queue'),
        Some (txn0\<lparr>lock_set := [id0], state := GROWING\<rparr>)) \<and>
       request_queue queue' =
         [req_S2, \<lparr>req_txn_id = 1, req_lock_mode = INTENTION_SHARED, req_granted = True\<rparr>] \<and>
       priority (group_lock_mode queue') = 3)"
proof -
  have "lock [id0 \<mapsto> queue_other] (Some txn0) id0 EXLUCSIVE =
     (Inr False, [id0 \<mapsto> queue_other], Some txn0)"
    using lock_new_request [of txn0 "[id0 \<mapsto> queue_other]" id0 EXLUCSIVE]
    by (simp add: txn0_def queue_other_def req_S2_def queue_reqs_def)
  moreover have "\<exists>queue'. lock [id0 \<mapsto> queue_other] (Some (txn0\<lparr>state := DEFAULT\<rparr>)) id0 INTENTION_SHARED =
       (Inr True, [id0 \<mapsto> queue_other](id0 \<mapsto> queue'),
        Some (txn0\<lparr>lock_set := [id0], state := GROWING\<rparr>)) \<and>
       request_queue queue' =
         [req_S2, \<lparr>req_txn_id = 1, req_lock_mode = INTENTION_SHARED, req_granted = True\<rparr>] \<and>
       priority (group_lock_mode queue') = 3"
    using lock_new_request [of "txn0\<lparr>state := DEFAULT\<rparr>" "[id0 \<mapsto> queue_other]" id0 INTENTION_SHARED]
    by (auto simp: txn0_def queue_other_def req_S2_def queue_reqs_def
          granted_priorities_Cons granted_priorities_Nil)
  ultimately show ?thesis by simp
qed

section \<open>Bits and bytes of a page\<close>

lemma get_bit_eq: "get_bit pos = push_bit (7 - nat (pos mod 8)) 1"
proof -
  have "0 \<le> pos mod 8" "pos mod 8 < 8" by simp_all
  then have "pos mod 8 = 0 \<or> pos mod 8 = 1 \<or> pos mod 8 = 2 \<or> pos mod 8 = 3 \<or>
     pos mod 8 = 4 \<or> pos mod 8 = 5 \<or> pos mod 8 = 6 \<or> pos mod 8 = 7" by arith
  then show ?thesis
    unfolding get_bit_def by (elim disjE) simp_all
qed

lemma Bitmap_is_set_bit:
  "Bitmap_is_set bm pos \<longleftrightarrow> bit (bm ! nat (pos div 8)) (7 - nat (pos mod 8))"
  by (simp add: Bitmap_is_set_def get_bucket_def get_bit_eq bit_iff_and_push_bit_not_eq_0)

lemma Bitmap_set_eq:
  "Bitmap_set bm pos = bm[nat (pos div 8) := set_bit (7 - nat (pos mod 8)) (bm ! nat (pos div 8))]"
  by (simp add: Bitmap_set_def get_bucket_def get_bit_eq set_bit_eq_or)

lemma Bitmap_reset_eq:
  "Bitmap_reset bm pos =
     bm[nat (pos div 8) := unset_bit (7 - nat (pos mod 8)) (bm ! nat (pos div 8))]"
  by (simp add: Bitmap_reset_def get_bucket_def get_bit_eq unset_bit_eq_and_not)

lemma length_Bitmap_set [simp]: "length (Bitmap_set bm pos) = length bm"
  by (simp add: Bitmap_set_def)

lemma length_Bitmap_reset [simp]: "length (Bitmap_reset bm pos) = length bm"
  by (simp add: Bitmap_reset_def)

lemma Bitmap_in_range_set [simp]: "Bitmap_in_range (Bitmap_set bm i) j = Bitmap_in_range bm j"
  by (simp add: Bitmap_in_range_def)

lemma Bitmap_in_range_reset [simp]: "Bitmap_in_range (Bitmap_reset bm i) j = Bitmap_in_range bm j"
  by (simp add: Bitmap_in_range_def)

lemma nat_eq_nonneg: "0 \<le> (x :: int) \<Longrightarrow> 0 \<le> y \<Longrightarrow> nat x = nat y \<Longrightarrow> x = y"
  by arith

lemma seven_minus_eq: "a \<le> 7 \<Longrightarrow> b \<le> 7 \<Longrightarrow> 7 - a = 7 - b \<Longrightarrow> a = (b :: nat)"
  by arith

lemma pos_eq_iff:
  assumes "0 \<le> i" and "0 \<le> s"
  shows "(i = s) \<longleftrightarrow> (nat (i div 8) = nat (s div 8) \<and> 7 - nat (i mod 8) = 7 - nat (s mod 8))"
proof
  assume "i = s"
  then show "nat (i div 8) = nat (s div 8) \<and> 7 - nat (i mod 8) = 7 - nat (s mod 8)" by simp
next
  assume a: "nat (i div 8) = nat (s div 8) \<and> 7 - nat (i mod 8) = 7 - nat (s mod 8)"
  have m: "0 \<le> i mod 8" "i mod 8 < 8" "0 \<le> s mod 8" "s mod 8 < 8" by simp_all
  from assms have d: "0 \<le> i div 8" "0 \<le> s div 8" by simp_all
  from a have e1: "i div 8 = s div 8" by (intro nat_eq_nonneg d) simp
  from m have "nat (i mod 8) \<le> 7" "nat (s mod 8) \<le> 7" by simp_all
  from seven_minus_eq [OF this] a have "nat (i mod 8) = nat (s mod 8)" by simp
  then have e2: "i mod 8 = s mod 8" by (intro nat_eq_nonneg m)
  have "i = 8 * (i div 8) + i mod 8" by simp
  also have "\<dots> = 8 * (s div 8) + s mod 8" by (simp only: e1 e2)
  also have "\<dots> = s" by simp
  finally show "i = s" .
qed

lemma upd_set_bit:
  fixes bm :: "byte list"
  assumes "k < length bm" and "b < 8"
  shows "bit ((bm[k := set_bit a (bm ! k)]) ! j) b \<longleftrightarrow> ((j = k \<and> b = a) \<or> bit (bm ! j) b)"
  using assms by (auto simp: nth_list_update bit_set_bit_iff)

lemma upd_unset_bit:
  fixes bm :: "byte list"
  assumes "k < length bm"
  shows "bit ((bm[k := unset_bit a (bm ! k)]) ! j) b \<longleftrightarrow> (\<not> (j = k \<and> b = a) \<and> bit (bm ! j) b)"
  using assms by (auto simp: nth_list_update bit_unset_bit_iff)

lemma seven_minus_less: "7 - (n :: nat) < 8"
  by simp

lemma Bitmap_in_range_iff:
  "Bitmap_in_range bm s \<longleftrightarrow> 0 \<le> s \<and> s < 8 * int (length bm)"
  unfolding Bitmap_in_range_def by presburger

lemma Bitmap_in_range_nat:
  assumes "Bitmap_in_range bm s"
  shows "0 \<le> s" and "nat (s div 8) < length bm"
  using assms unfolding Bitmap_in_range_def
  by (simp_all add: nat_less_iff pos_imp_zdiv_nonneg_iff)

lemma Bitmap_is_set_set:
  assumes "Bitmap_in_range bm s" and "0 \<le> i"
  shows "Bitmap_is_set (Bitmap_set bm s) i \<longleftrightarrow> (i = s \<or> Bitmap_is_set bm i)"
proof -
  note s = Bitmap_in_range_nat [OF assms(1)]
  show ?thesis
    unfolding Bitmap_is_set_bit Bitmap_set_eq upd_set_bit [OF s(2) seven_minus_less]
      pos_eq_iff [OF assms(2) s(1)] ..
qed

lemma Bitmap_is_set_reset:
  assumes "Bitmap_in_range bm s" and "0 \<le> i"
  shows "Bitmap_is_set (Bitmap_reset bm s) i \<longleftrightarrow> (i \<noteq> s \<and> Bitmap_is_set bm i)"
proof -
  note s = Bitmap_in_range_nat [OF assms(1)]
  show ?thesis
    unfolding Bitmap_is_set_bit Bitmap_reset_eq upd_unset_bit [OF s(2)]
      pos_eq_iff [OF assms(2) s(1)] ..
qed

lemma Bitmap_set_reset_set:
  assumes "Bitmap_in_range bm s"
  shows "Bitmap_set (Bitmap_reset (Bitmap_set bm s) s) s = Bitmap_set bm s"
proof -
  note s = Bitmap_in_range_nat [OF assms]
  have w: "\<And>a (w :: byte). set_bit a (unset_bit a (set_bit a w)) = set_bit a w"
    by (rule bit_eqI) (auto simp: bit_simps)
  from s(2) show ?thesis by (simp add: Bitmap_set_eq Bitmap_reset_eq w)
qed

lemma Bitmap_reset_set:
  assumes "Bitmap_in_range bm s" and "\<not> Bitmap_is_set bm s"
  shows "Bitmap_reset (Bitmap_set bm s) s = bm"
proof -
  note s = Bitmap_in_range_nat [OF assms(1)]
  have w: "\<And>a (w :: byte). \<not> bit w a \<Longrightarrow> unset_bit a (set_bit a w) = w"
    by (rule bit_eqI) (auto simp: bit_simps)
  from s(2) assms(2) show ?thesis
    by (simp add: Bitmap_set_eq Bitmap_reset_eq Bitmap_is_set_bit w)
qed

lemma nth_Bitmap_set_other:
  "k \<noteq> nat (s div 8) \<Longrightarrow> Bitmap_set bm s ! k = bm ! k"
  by (simp add: Bitmap_set_eq)

lemma nth_Bitmap_reset_other:
  "k \<noteq> nat (s div 8) \<Longrightarrow> Bitmap_reset bm s ! k = bm ! k"
  by (simp add: Bitmap_reset_eq)

lemma length_write_bytes:
  "off + length xs \<le> length d \<Longrightarrow> length (write_bytes d off xs) = length d"
  by (simp add: write_bytes_def)

lemma nth_write_bytes:
  assumes "off + length xs \<le> length d"
  shows "write_bytes d off xs ! i =
           (if off \<le> i \<and> i < off + length xs then xs ! (i - off) else d ! i)"
proof -
  define A where "A = take off d"
  define C where "C = drop (off + length xs) d"
  from assms have l: "length A = off" by (simp add: A_def)
  have w: "write_bytes d off xs = A @ xs @ C" by (simp add: write_bytes_def A_def C_def)
  consider "i < off" | "off \<le> i" "i < off + length xs" | "off + length xs \<le> i" by linarith
  then show ?thesis
  proof cases
    case 1
    then have "(A @ xs @ C) ! i = A ! i" by (simp add: nth_append l)
    also have "\<dots> = d ! i" using 1 by (simp add: A_def)
    finally show ?thesis using 1 by (simp add: w)
  next
    case 2
    then have lt: "i - off < length xs" and nl: "\<not> i < off" by linarith+
    from nl have "(A @ xs @ C) ! i = (xs @ C) ! (i - off)" by (simp add: nth_append l)
    also have "\<dots> = xs ! (i - off)" using lt by (simp add: nth_append)
    finally show ?thesis using 2 by (simp add: w)
  next
    case 3
    then have nl: "\<not> i < off" and nlt: "\<not> i - off < length xs" by linarith+
    have e: "off + length xs + (i - off - length xs) = i" using 3 by linarith
    from nl have "(A @ xs @ C) ! i = (xs @ C) ! (i - off)" by (simp add: nth_append l)
    also have "\<dots> = C ! (i - off - length xs)" using nlt by (simp add: nth_append)
    also have "\<dots> = d ! (off + length xs + (i - off - length xs))"
      unfolding C_def using assms by (rule nth_drop)
    also have "\<dots> = d ! i" by (simp only: e)
    finally show ?thesis using 3 by (simp add: w)
  qed
qed

lemma write_bytes_Nil [simp]: "write_bytes d off [] = d"
  by (simp add: write_bytes_def)


lemma write_bytes_idem:
  assumes "off + length xs \<le> length d"
  shows "write_bytes (write_bytes d off xs) off xs = write_bytes d off xs"
proof -
  from assms have l: "length (take off d) = off" by simp
  have "take off (write_bytes d off xs) = take off d"
    using l by (simp add: write_bytes_def)
  moreover have "drop (off + length xs) (write_bytes d off xs) = drop (off + length xs) d"
    using l by (simp add: write_bytes_def)
  ultimately show ?thesis by (simp add: write_bytes_def)
qed

lemma write_bytes_update_inside:
  assumes "off \<le> k" and "k < off + length xs"
  shows "write_bytes (d[k := x]) off xs = write_bytes d off xs"
  using assms by (simp add: write_bytes_def)

lemma write_bytes_update_outside:
  assumes "off + length xs \<le> length d" and "k < off \<or> off + length xs \<le> k"
  shows "write_bytes (d[k := x]) off xs = (write_bytes d off xs)[k := x]"
proof (cases "k < length d")
  case False
  then have "d[k := x] = d" by (intro list_update_beyond) simp
  moreover from False assms(1) have "(write_bytes d off xs)[k := x] = write_bytes d off xs"
    by (intro list_update_beyond) (simp add: length_write_bytes)
  ultimately show ?thesis by simp
next
  case k: True
  show ?thesis
  proof (rule nth_equalityI)
    show "length (write_bytes (d[k := x]) off xs) = length ((write_bytes d off xs)[k := x])"
      using assms(1) by (simp add: length_write_bytes)
  next
    fix i assume "i < length (write_bytes (d[k := x]) off xs)"
    with assms(1) have i: "i < length d" by (simp add: length_write_bytes)
    from assms(1) have a: "off + length xs \<le> length (d[k := x])" by simp
    from k assms(1) have kw: "k < length (write_bytes d off xs)" by (simp add: length_write_bytes)
    show "write_bytes (d[k := x]) off xs ! i = (write_bytes d off xs)[k := x] ! i"
    proof (cases "i = k")
      case True
      with assms(2) k kw show ?thesis
        by (auto simp: nth_write_bytes [OF a])
    next
      case False
      with kw show ?thesis
        by (simp add: nth_write_bytes [OF a] nth_write_bytes [OF assms(1)])
    qed
  qed
qed



lemma Bitmap_is_set_update_other:
  "k \<noteq> nat (i div 8) \<Longrightarrow> Bitmap_is_set (d[k := x]) i = Bitmap_is_set d i"
  by (simp add: Bitmap_is_set_bit)

lemma Bitmap_is_set_write_bytes:
  assumes "off + length xs \<le> length d" and "nat (i div 8) < off \<or> off + length xs \<le> nat (i div 8)"
  shows "Bitmap_is_set (write_bytes d off xs) i = Bitmap_is_set d i"
  using assms(2) by (auto simp: Bitmap_is_set_bit nth_write_bytes [OF assms(1)])

lemma Bitmap_in_range_write_bytes:
  "off + length xs \<le> length d \<Longrightarrow> Bitmap_in_range (write_bytes d off xs) i = Bitmap_in_range d i"
  by (simp add: Bitmap_in_range_def length_write_bytes)

section \<open>Record manager: basic facts\<close>

lemma length_take_buf:
  "buf_in_range hdr buf \<Longrightarrow> length (take (nat (record_size hdr)) buf) = nat (record_size hdr)"
  by (simp add: buf_in_range_def)

lemma data_memcpy_slot:
  assumes "buf_in_range hdr buf"
  shows "data (memcpy_slot hdr pg s buf) =
           write_bytes (data pg) (nat (slot_offset hdr s)) (take (nat (record_size hdr)) buf)"
  unfolding memcpy_slot_def write_bytes_def length_take_buf [OF assms] by simp

lemma slot_in_range_nat:
  assumes "slot_in_range hdr pg s"
  shows "nat (slot_offset hdr s) + nat (record_size hdr) \<le> length (data pg)"
  using assms by (simp add: slot_in_range_def nat_add_distrib [symmetric] nat_le_iff)

lemma memcpy_slot_fields [simp]:
  "num_records (memcpy_slot hdr pg s buf) = num_records pg"
  "next_free_page_no (memcpy_slot hdr pg s buf) = next_free_page_no pg"
  by (simp_all add: memcpy_slot_def)

lemma length_memcpy_slot:
  assumes "slot_in_range hdr pg s" and "buf_in_range hdr buf"
  shows "length (data (memcpy_slot hdr pg s buf)) = length (data pg)"
  using slot_in_range_nat [OF assms(1)]
  by (simp add: data_memcpy_slot [OF assms(2)] length_write_bytes length_take_buf [OF assms(2)])



lemma write_page_fields [simp]:
  "num_records (write_page hdr pg s buf) = num_records pg + 1"
  "next_free_page_no (write_page hdr pg s buf) = next_free_page_no pg"
  "data (write_page hdr pg s buf) = Bitmap_set (data (memcpy_slot hdr pg s buf)) s"
  by (simp_all add: write_page_def)

lemma length_write_page:
  assumes "slot_in_range hdr pg s" and "buf_in_range hdr buf"
  shows "length (data (write_page hdr pg s buf)) = length (data pg)"
  by (simp add: length_memcpy_slot [OF assms])

lemma fetch_page_handle_Inr:
  "fetch_page_handle fh p = Inr pg \<longleftrightarrow>
     1 \<le> p \<and> p < num_pages (file_hdr fh) \<and> p \<le> int (length (pages fh)) \<and>
     pg = pages fh ! nat (p - 1)"
  by (auto simp: fetch_page_handle_def fetch_page_def RM_FIRST_RECORD_PAGE_def)

lemma fetch_page_handle_Inl:
  "fetch_page_handle fh p = Inl e \<Longrightarrow> e = PageNotExistError p"
  by (auto simp: fetch_page_handle_def split: if_splits option.splits)

lemma file_hdr_put_page [simp]: "file_hdr (put_page fh p pg) = file_hdr fh"
  by (simp add: put_page_def)

lemma page_bytes_put_page [simp]: "page_bytes (put_page fh p pg) = page_bytes fh"
  by (simp add: put_page_def)

lemma length_pages_put_page [simp]: "length (pages (put_page fh p pg)) = length (pages fh)"
  by (simp add: put_page_def)

lemma fetch_put_page:
  "1 \<le> p \<Longrightarrow> p < num_pages (file_hdr fh) \<Longrightarrow> p \<le> int (length (pages fh)) \<Longrightarrow>
     fetch_page_handle (put_page fh p pg) q = (if q = p then Inr pg else fetch_page_handle fh q)"
  by (auto simp: fetch_page_handle_def fetch_page_def put_page_def RM_FIRST_RECORD_PAGE_def nth_list_update)

lemma fetch_hdr_update:
  "num_pages hdr' = num_pages (file_hdr fh) \<Longrightarrow>
   fetch_page_handle (fh\<lparr>file_hdr := hdr'\<rparr>) q = fetch_page_handle fh q"
  by (simp add: fetch_page_handle_def fetch_page_def)

lemma put_put_page [simp]: "put_page (put_page fh p pg) p pg' = put_page fh p pg'"
  by (simp add: put_page_def)

lemma create_page_handle_props:
  assumes "create_page_handle fh = (Inr (pno, pg), fh1)"
  shows "fetch_page_handle fh1 pno = Inr pg \<and> first_free_page_no (file_hdr fh1) = pno"
  using assms
  by (auto simp: create_page_handle_def create_new_page_handle_def Let_def
      split: if_splits sum.splits)

lemma create_page_handle_again:
  assumes "fetch_page_handle fh1 pno = Inr pg" "first_free_page_no (file_hdr fh1) = pno"
  shows "create_page_handle fh1 = (Inr (pno, pg), fh1)"
proof -
  from assms(1) have "1 \<le> pno" by (simp add: fetch_page_handle_Inr)
  then have "pno \<noteq> RM_NO_PAGE" by (simp add: RM_NO_PAGE_def)
  with assms show ?thesis by (simp add: create_page_handle_def)
qed

lemma next_bit_Some:
  "next_bit b bm n c = Some i \<Longrightarrow> i < n \<Longrightarrow>
     c < i \<and> Bitmap_in_range bm i \<and> Bitmap_is_set bm i = b \<and>
     (\<forall>j. c < j \<and> j < i \<longrightarrow> Bitmap_in_range bm j \<and> Bitmap_is_set bm j \<noteq> b)"
proof (induction b bm n c rule: next_bit.induct)
  case (1 b bm max_n cur)
  show ?case
  proof (cases "Bitmap_in_range bm (cur + 1) \<and> Bitmap_is_set bm (cur + 1) \<noteq> b")
    case True
    with "1.prems" have nb: "next_bit b bm max_n (cur + 1) = Some i" and lt: "cur + 1 < max_n"
      by (auto simp: next_bit.simps [of b bm max_n cur] split: if_splits)
    from "1.IH" [OF lt _ _ nb "1.prems"(2)] True
    have ih: "cur + 1 < i \<and> Bitmap_in_range bm i \<and> Bitmap_is_set bm i = b \<and>
     (\<forall>j. cur + 1 < j \<and> j < i \<longrightarrow> Bitmap_in_range bm j \<and> Bitmap_is_set bm j \<noteq> b)"
      by auto
    have "\<And>j. cur < j \<Longrightarrow> j < i \<Longrightarrow> Bitmap_in_range bm j \<and> Bitmap_is_set bm j \<noteq> b"
    proof -
      fix j assume "cur < j" "j < i"
      then have "j = cur + 1 \<or> (cur + 1 < j \<and> j < i)" by auto
      with True ih show "Bitmap_in_range bm j \<and> Bitmap_is_set bm j \<noteq> b" by auto
    qed
    with ih show ?thesis by auto
  next
    case False
    with "1.prems" show ?thesis
      by (auto simp: next_bit.simps [of b bm max_n cur] split: if_splits)
  qed
qed

text \<open>The search depends only on the bits up to the one it finds.\<close>

lemma next_bit_cong:
  assumes "next_bit b bm n c = Some i" and "i < n"
    and "\<forall>j. c < j \<and> j \<le> i \<longrightarrow>
           Bitmap_in_range bm' j \<and> Bitmap_is_set bm' j = Bitmap_is_set bm j"
  shows "next_bit b bm' n c = Some i"
  using assms
proof (induction b bm n c rule: next_bit.induct)
  case (1 b bm max_n cur)
  from next_bit_Some [OF "1.prems"(1,2)] have ci: "cur < i" by simp
  with "1.prems"(2) have lt: "cur + 1 < max_n" by simp
  from ci "1.prems"(3) have r: "Bitmap_in_range bm' (cur + 1)"
    and e: "Bitmap_is_set bm' (cur + 1) = Bitmap_is_set bm (cur + 1)" by simp_all
  from next_bit_Some [OF "1.prems"(1,2)] ci have r0: "Bitmap_in_range bm (cur + 1)"
    by (cases "cur + 1 = i") auto
  show ?case
  proof (cases "Bitmap_is_set bm (cur + 1) = b")
    case True
    with lt r0 "1.prems"(1) have "i = cur + 1"
      by (simp add: next_bit.simps [of b bm max_n cur])
    with True lt r e show ?thesis
      by (simp add: next_bit.simps [of b bm' max_n cur])
  next
    case False
    with lt r0 "1.prems"(1) have nb: "next_bit b bm max_n (cur + 1) = Some i"
      by (simp add: next_bit.simps [of b bm max_n cur])
    from "1.prems"(3) have "\<forall>j. cur + 1 < j \<and> j \<le> i \<longrightarrow>
           Bitmap_in_range bm' j \<and> Bitmap_is_set bm' j = Bitmap_is_set bm j" by simp
    from "1.IH" [OF lt _ False nb "1.prems"(2) this] r0
    have "next_bit b bm' max_n (cur + 1) = Some i" by simp
    with False lt r e show ?thesis
      by (simp add: next_bit.simps [of b bm' max_n cur])
  qed
qed

lemma insert_record_Inr:
  assumes "insert_record fh buf = (Inr r, fh')"
  shows "\<exists>pno pg fh1 sno.
           create_page_handle fh = (Inr (pno, pg), fh1) \<and>
           first_bit False (data pg) (num_records_per_page (file_hdr fh1)) = Some sno \<and>
           sno < num_records_per_page (file_hdr fh1) \<and>
           slot_in_range (file_hdr fh1) pg sno \<and> buf_in_range (file_hdr fh1) buf \<and>
           r = Rid pno sno \<and> fh' = insert_result fh1 pno pg sno buf"
  using assms
  by (auto simp: insert_record_def insert_result_def write_page_def Let_def
      split: prod.splits sum.splits option.splits if_splits)

lemma insert_record_eq:
  assumes "create_page_handle fh = (Inr (pno, pg), fh1)"
    and "first_bit False (data pg) (num_records_per_page (file_hdr fh1)) = Some sno"
    and "sno < num_records_per_page (file_hdr fh1)"
    and "slot_in_range (file_hdr fh1) pg sno" and "buf_in_range (file_hdr fh1) buf"
  shows "insert_record fh buf = (Inr (Rid pno sno), insert_result fh1 pno pg sno buf)"
  using assms
  by (auto simp: insert_record_def insert_result_def write_page_def Let_def)

lemma get_record_page_record:
  "get_record fh r =
     (case fetch_page_handle fh (page_no r) of
        Inl e \<Rightarrow> Inl e | Inr pg \<Rightarrow> page_record (file_hdr fh) pg r)"
  by (simp add: get_record_def page_record_def split: sum.splits)



lemma page_record_next [simp]:
  "page_record hdr (pg\<lparr>next_free_page_no := x\<rparr>) r = page_record hdr pg r"
  by (simp add: page_record_def slot_in_range_def get_slot_def)

lemma page_record_num [simp]:
  "page_record hdr (pg\<lparr>num_records := x\<rparr>) r = page_record hdr pg r"
  by (simp add: page_record_def slot_in_range_def get_slot_def)

lemma page_record_hdr_cong:
  "record_size hdr' = record_size hdr \<Longrightarrow> bitmap_size hdr' = bitmap_size hdr \<Longrightarrow>
     page_record hdr' pg r = page_record hdr pg r"
  by (simp add: page_record_def slot_in_range_def get_slot_def slot_offset_def)

lemma get_record_put_page:
  assumes "fetch_page_handle fh p = Inr pg"
  shows "get_record (put_page fh p pg') r =
           (if page_no r = p then page_record (file_hdr fh) pg' r else get_record fh r)"
proof -
  from assms have b: "1 \<le> p" "p < num_pages (file_hdr fh)" "p \<le> int (length (pages fh))"
    by (simp_all add: fetch_page_handle_Inr)
  show ?thesis
  proof (cases "page_no r = p")
    case True
    with fetch_put_page [OF b, of pg' p] show ?thesis
      by (simp add: get_record_page_record)
  next
    case False
    with fetch_put_page [OF b, of pg' "page_no r"] show ?thesis
      by (cases "fetch_page_handle fh (page_no r)") (simp_all add: get_record_page_record)
  qed
qed

lemma get_record_hdr_update:
  "num_pages hdr' = num_pages (file_hdr fh) \<Longrightarrow> record_size hdr' = record_size (file_hdr fh) \<Longrightarrow>
   bitmap_size hdr' = bitmap_size (file_hdr fh) \<Longrightarrow>
     get_record (fh\<lparr>file_hdr := hdr'\<rparr>) r = get_record fh r"
  by (cases "fetch_page_handle fh (page_no r)")
    (simp_all add: get_record_page_record fetch_hdr_update
       page_record_hdr_cong [of hdr' "file_hdr fh"])

lemma div8_le: "0 \<le> (j :: int) \<Longrightarrow> j div 8 \<le> j"
  by presburger

lemma nat_less_mono: "0 \<le> (x :: int) \<Longrightarrow> x < y \<Longrightarrow> nat x < nat y"
  by simp

text \<open>Copying a record to slot \<open>s\<close> leaves the bits before bit \<open>s\<close> as they are.\<close>

lemma Bitmap_is_set_memcpy_before:
  assumes sr: "slot_in_range hdr pg s" and br: "buf_in_range hdr buf"
    and j: "0 \<le> j" "j < s"
  shows "Bitmap_is_set (data (memcpy_slot hdr pg s buf)) j = Bitmap_is_set (data pg) j"
proof (cases "record_size hdr = 0")
  case True
  then show ?thesis by (simp add: data_memcpy_slot [OF br])
next
  case False
  with sr have rs: "1 \<le> record_size hdr" and bs: "0 \<le> bitmap_size hdr"
    by (simp_all add: slot_in_range_def)
  from j have s0: "0 \<le> s" by simp
  from mult_left_mono [OF rs s0] have "s \<le> s * record_size hdr" by simp
  with bs have "s \<le> slot_offset hdr s" by (simp add: slot_offset_def)
  with div8_le [OF j(1)] j(2) have lt: "j div 8 < slot_offset hdr s" by linarith
  from j(1) have "0 \<le> j div 8" by (simp add: pos_imp_zdiv_nonneg_iff)
  from nat_less_mono [OF this lt] have n: "nat (j div 8) < nat (slot_offset hdr s)" .
  from slot_in_range_nat [OF sr]
  have "nat (slot_offset hdr s) + length (take (nat (record_size hdr)) buf) \<le> length (data pg)"
    by (simp only: length_take_buf [OF br])
  from Bitmap_is_set_write_bytes [OF this disjI1 [OF n]] show ?thesis
    by (simp only: data_memcpy_slot [OF br])
qed

lemma Bitmap_reset_set_upd:
  assumes "Bitmap_in_range d s"
  shows "\<exists>y. Bitmap_reset (Bitmap_set d s) s = d[nat (s div 8) := y]"
  using Bitmap_in_range_nat(2) [OF assms] by (simp add: Bitmap_set_eq Bitmap_reset_eq) blast

text \<open>Setting the bit, clearing it and writing the same record again gives the page of
  the first write.\<close>

lemma write_bytes_reset_set:
  assumes "off + length xs \<le> length d0" and "Bitmap_in_range d0 s"
  shows "Bitmap_set (write_bytes (Bitmap_reset (Bitmap_set (write_bytes d0 off xs) s) s) off xs) s
           = Bitmap_set (write_bytes d0 off xs) s"
proof -
  define d1 where "d1 = write_bytes d0 off xs"
  from assms(1) have l1: "length d1 = length d0" by (simp add: d1_def length_write_bytes)
  with assms have b1: "off + length xs \<le> length d1" and r1: "Bitmap_in_range d1 s"
    by (simp_all add: Bitmap_in_range_def)
  from Bitmap_reset_set_upd [OF r1] obtain y where
    y: "Bitmap_reset (Bitmap_set d1 s) s = d1[nat (s div 8) := y]" by blast
  have idem: "write_bytes d1 off xs = d1"
    unfolding d1_def by (rule write_bytes_idem [OF assms(1)])
  let ?k = "nat (s div 8)"
  show ?thesis
    unfolding d1_def [symmetric]
  proof (cases "off \<le> ?k \<and> ?k < off + length xs")
    case True
    then have "write_bytes (d1[?k := y]) off xs = d1"
      by (simp add: write_bytes_update_inside idem)
    then show "Bitmap_set (write_bytes (Bitmap_reset (Bitmap_set d1 s) s) off xs) s = Bitmap_set d1 s"
      by (simp add: y)
  next
    case False
    then have "?k < off \<or> off + length xs \<le> ?k" by linarith
    from write_bytes_update_outside [OF b1 this]
    have "write_bytes (d1[?k := y]) off xs = d1[?k := y]" by (simp add: idem)
    then have "write_bytes (Bitmap_reset (Bitmap_set d1 s) s) off xs = Bitmap_reset (Bitmap_set d1 s) s"
      by (simp add: y)
    then show "Bitmap_set (write_bytes (Bitmap_reset (Bitmap_set d1 s) s) off xs) s = Bitmap_set d1 s"
      by (simp add: Bitmap_set_reset_set [OF r1])
  qed
qed

lemma write_page_eq:
  "write_page hdr pg s buf =
     pg\<lparr>data := Bitmap_set (data (memcpy_slot hdr pg s buf)) s, num_records := num_records pg + 1\<rparr>"
  by (simp add: write_page_def memcpy_slot_def)

lemma memcpy_slot_data_cong:
  "data (memcpy_slot hdr (pg\<lparr>data := d\<rparr>) s buf) = data (memcpy_slot hdr (pg'\<lparr>data := d\<rparr>) s buf)"
  by (simp add: memcpy_slot_def)

lemma write_page_again:
  assumes sr: "slot_in_range hdr pg s" and br: "buf_in_range hdr buf"
    and ir: "Bitmap_in_range (data pg) s"
  shows "write_page hdr (pg\<lparr>data := Bitmap_reset (data (write_page hdr pg s buf)) s\<rparr>) s buf
           = write_page hdr pg s buf"
proof -
  let ?off = "nat (slot_offset hdr s)" and ?xs = "take (nat (record_size hdr)) buf"
  from slot_in_range_nat [OF sr] have b: "?off + length ?xs \<le> length (data pg)"
    by (simp only: length_take_buf [OF br])
  have d: "\<And>d. data (memcpy_slot hdr (pg\<lparr>data := d\<rparr>) s buf) = write_bytes d ?off ?xs"
    by (simp add: data_memcpy_slot [OF br])
  have d0: "data (memcpy_slot hdr pg s buf) = write_bytes (data pg) ?off ?xs"
    by (rule data_memcpy_slot [OF br])
  from write_bytes_reset_set [OF b ir] show ?thesis
    by (simp add: write_page_eq d d0)
qed

lemmas unlink_loop_induct = unlink_loop.raw_induct [rotated 1, consumes 1, case_names step]

lemma unlink_loop_shape:
  assumes "unlink_loop fh t tn prev = Some y"
  shows "snd y = fh \<or>
     (\<exists>q pg. fetch_page_handle fh q = Inr pg \<and> next_free_page_no pg = t \<and> fst y = Inr () \<and>
        snd y = put_page fh q (pg\<lparr>next_free_page_no := tn\<rparr>))"
  using assms
proof (induct rule: unlink_loop_induct)
  case (step ul fh target target_next prev y)
  note IH = step(1) and body = step(2)
  show ?case
  proof (cases "prev = RM_NO_PAGE")
    case True
    with body show ?thesis by auto
  next
    case False
    show ?thesis
    proof (cases "fetch_page_handle fh prev")
      case (Inl e)
      with False body show ?thesis by auto
    next
      case (Inr ph)
      show ?thesis
      proof (cases "next_free_page_no ph = target")
        case True
        with False Inr body
        have "y = (Inr (), put_page fh prev (ph\<lparr>next_free_page_no := target_next\<rparr>))"
          by simp
        with Inr True show ?thesis
          by (intro disjI2 exI [of _ prev] exI [of _ ph]) simp
      next
        case ne: False
        with False Inr body
        have "ul fh target target_next (next_free_page_no ph) = Some y" by simp
        then show ?thesis by (rule IH)
      qed
    qed
  qed
qed

lemma get_record_unlink_loop:
  assumes "unlink_loop fh t tn prev = Some (res, fh')"
  shows "get_record fh' r = get_record fh r"
  using unlink_loop_shape [OF assms]
  by (auto simp: get_record_put_page) (simp add: get_record_page_record)

lemma fetch_unlink_loop:
  assumes "unlink_loop fh t tn prev = Some (res, fh')" and "fetch_page_handle fh p = Inr pg"
  shows "\<exists>pg'. fetch_page_handle fh' p = Inr pg'"
  using unlink_loop_shape [OF assms(1)] assms(2)
  by (auto simp: fetch_put_page fetch_page_handle_Inr)

lemma file_hdr_unlink_loop:
  assumes "unlink_loop fh t tn prev = Some (res, fh')"
  shows "file_hdr fh' = file_hdr fh"
  using unlink_loop_shape [OF assms] by auto

lemma next_bit_total:
  assumes "\<forall>j. c < j \<and> j < n \<longrightarrow> Bitmap_in_range bm j"
  shows "\<exists>k. next_bit b bm n c = Some k \<and>
     (if \<exists>j. c < j \<and> j < n \<and> Bitmap_is_set bm j = b
      then c < k \<and> k < n \<and> Bitmap_is_set bm k = b \<and>
           (\<forall>j. c < j \<and> j < k \<longrightarrow> Bitmap_is_set bm j \<noteq> b)
      else k = n)"
  using assms
proof (induction b bm n c rule: next_bit.induct)
  case (1 b bm max_n cur)
  show ?case
  proof (cases "cur + 1 < max_n")
    case False
    then have "next_bit b bm max_n cur = Some max_n"
      by (simp add: next_bit.simps [of b bm max_n cur])
    moreover from False have "\<not> (\<exists>j. cur < j \<and> j < max_n \<and> Bitmap_is_set bm j = b)" by auto
    ultimately show ?thesis by simp
  next
    case lt: True
    with "1.prems" have ir: "Bitmap_in_range bm (cur + 1)" by simp
    show ?thesis
    proof (cases "Bitmap_is_set bm (cur + 1) = b")
      case True
      with lt ir have "next_bit b bm max_n cur = Some (cur + 1)"
        by (simp add: next_bit.simps [of b bm max_n cur])
      moreover from lt True have "\<exists>j. cur < j \<and> j < max_n \<and> Bitmap_is_set bm j = b"
        by (intro exI [of _ "cur + 1"]) simp
      moreover have "\<forall>j. cur < j \<and> j < cur + 1 \<longrightarrow> Bitmap_is_set bm j \<noteq> b" by auto
      ultimately show ?thesis using lt True by simp
    next
      case False
      with lt ir have eq: "next_bit b bm max_n cur = next_bit b bm max_n (cur + 1)"
        by (simp add: next_bit.simps [of b bm max_n cur])
      from "1.prems" have "\<forall>j. cur + 1 < j \<and> j < max_n \<longrightarrow> Bitmap_in_range bm j" by simp
      from "1.IH" [OF lt _ False this] ir obtain k where
        k: "next_bit b bm max_n (cur + 1) = Some k" and
        kk: "(if \<exists>j. cur + 1 < j \<and> j < max_n \<and> Bitmap_is_set bm j = b
          then cur + 1 < k \<and> k < max_n \<and> Bitmap_is_set bm k = b \<and>
               (\<forall>j. cur + 1 < j \<and> j < k \<longrightarrow> Bitmap_is_set bm j \<noteq> b)
          else k = max_n)"
        by auto
      have ex: "(\<exists>j. cur < j \<and> j < max_n \<and> Bitmap_is_set bm j = b) \<longleftrightarrow>
                (\<exists>j. cur + 1 < j \<and> j < max_n \<and> Bitmap_is_set bm j = b)"
      proof
        assume "\<exists>j. cur < j \<and> j < max_n \<and> Bitmap_is_set bm j = b"
        then obtain j where j: "cur < j" "j < max_n" "Bitmap_is_set bm j = b" by blast
        with False have "j \<noteq> cur + 1" by auto
        with j have "cur + 1 < j \<and> j < max_n \<and> Bitmap_is_set bm j = b" by simp
        then show "\<exists>j. cur + 1 < j \<and> j < max_n \<and> Bitmap_is_set bm j = b" by blast
      next
        assume "\<exists>j. cur + 1 < j \<and> j < max_n \<and> Bitmap_is_set bm j = b"
        then obtain j where "cur + 1 < j \<and> j < max_n \<and> Bitmap_is_set bm j = b" by blast
        then have "cur < j \<and> j < max_n \<and> Bitmap_is_set bm j = b" by simp
        then show "\<exists>j. cur < j \<and> j < max_n \<and> Bitmap_is_set bm j = b" by blast
      qed
      have all: "\<And>k. (\<forall>j. cur + 1 < j \<and> j < k \<longrightarrow> Bitmap_is_set bm j \<noteq> b) \<Longrightarrow>
                  (\<forall>j. cur < j \<and> j < k \<longrightarrow> Bitmap_is_set bm j \<noteq> b)"
      proof (intro allI impI)
        fix k j assume a: "\<forall>j. cur + 1 < j \<and> j < k \<longrightarrow> Bitmap_is_set bm j \<noteq> b"
          and j: "cur < j \<and> j < k"
        show "Bitmap_is_set bm j \<noteq> b"
        proof (cases "j = cur + 1")
          case True
          with False show ?thesis by simp
        next
          case False
          with j have "cur + 1 < j \<and> j < k" by simp
          with a show ?thesis by blast
        qed
      qed
      show ?thesis
      proof (cases "\<exists>j. cur + 1 < j \<and> j < max_n \<and> Bitmap_is_set bm j = b")
        case True
        with kk have "cur + 1 < k \<and> k < max_n \<and> Bitmap_is_set bm k = b \<and>
               (\<forall>j. cur + 1 < j \<and> j < k \<longrightarrow> Bitmap_is_set bm j \<noteq> b)" by simp
        with all [of k] have "cur < k \<and> k < max_n \<and> Bitmap_is_set bm k = b \<and>
               (\<forall>j. cur < j \<and> j < k \<longrightarrow> Bitmap_is_set bm j \<noteq> b)" by simp
        with True ex eq k show ?thesis by simp
      next
        case False
        with kk have "k = max_n" by simp
        with False ex eq k show ?thesis by simp
      qed
    qed
  qed
qed

section \<open>Record manager: the examples\<close>

lemma insert_fh_empty: "insert_record fh_empty [65, 65] = (Inr (Rid 1 0), fh_one)"
  by code_simp



lemma fh_empty_wf: "rm_wf fh_empty"
  by code_simp



lemma run_calls_past: "rm_run fh_one calls_past = Some ([Inr Done], fh_past)"
  by code_simp

lemma calls_fill_results:
  "map_option fst (rm_run fh_empty calls_fill) =
     Some [Inr (Inserted (Rid 1 0)), Inr (Inserted (Rid 1 1)), Inr (Inserted (Rid 1 2)),
           Inr (Inserted (Rid 2 0)), Inr Done, Inr Done, Inr Done, Inr Done]"
  by code_simp



lemma calls_fill_ok: "\<forall>c \<in> set calls_fill. call_ok (file_hdr fh_empty) c"
  by code_simp

lemma past_not_popcount_ok: "\<not> popcount_ok fh_past"
  by code_simp

section \<open>The layout of a page\<close>

lemma div8_less: "(s :: int) < 8 * b \<Longrightarrow> s div 8 < b"
  by presburger

lemma layout_ok_hdr:
  assumes "layout_ok fh"
  shows "0 \<le> record_size (file_hdr fh)" and "1 \<le> num_records_per_page (file_hdr fh)"
    and "num_records_per_page (file_hdr fh) \<le> 8 * bitmap_size (file_hdr fh)"
    and "1 \<le> bitmap_size (file_hdr fh)"
    and "bitmap_size (file_hdr fh) \<le> int (page_bytes fh)"
    and "bitmap_size (file_hdr fh) +
           num_records_per_page (file_hdr fh) * record_size (file_hdr fh) \<le> int (page_bytes fh)"
    and "num_pages (file_hdr fh) = int (length (pages fh)) + 1"
proof -
  let ?h = "file_hdr fh"
  from assms show a: "0 \<le> record_size ?h" and b: "1 \<le> num_records_per_page ?h"
    and c: "num_records_per_page ?h \<le> 8 * bitmap_size ?h"
    and f: "bitmap_size ?h + num_records_per_page ?h * record_size ?h \<le> int (page_bytes fh)"
    and "num_pages ?h = int (length (pages fh)) + 1"
    by (simp_all add: layout_ok_def hdr_ok_def)
  from b c show "1 \<le> bitmap_size ?h" by linarith
  from a b have "0 \<le> num_records_per_page ?h * record_size ?h" by simp
  with f show "bitmap_size ?h \<le> int (page_bytes fh)" by linarith
qed

lemma layout_ok_page:
  "layout_ok fh \<Longrightarrow> 1 \<le> p \<Longrightarrow> p \<le> int (length (pages fh)) \<Longrightarrow>
     length (data (page_at (pages fh) p)) = page_bytes fh"
  by (simp add: layout_ok_def page_at_def)

text \<open>A slot of the page lies in the slot array, and its bit in the bitmap.\<close>

lemma slot_ok_layout:
  assumes lay: "layout_ok fh" and len: "length (data pg) = page_bytes fh"
    and ok: "slot_ok (file_hdr fh) r"
  shows "Bitmap_in_range (data pg) (slot_no r)"
    and "slot_in_range (file_hdr fh) pg (slot_no r)"
    and "nat (slot_no r div 8) < nat (bitmap_size (file_hdr fh))"
    and "bitmap_size (file_hdr fh) \<le> slot_offset (file_hdr fh) (slot_no r)"
    and "slot_offset (file_hdr fh) (slot_no r) + record_size (file_hdr fh) \<le>
           bitmap_size (file_hdr fh) +
             num_records_per_page (file_hdr fh) * record_size (file_hdr fh)"
proof -
  let ?h = "file_hdr fh" and ?s = "slot_no r"
  note h = layout_ok_hdr [OF lay]
  from ok have s: "0 \<le> ?s" "?s < num_records_per_page ?h" by (simp_all add: slot_ok_def)
  from s h(3) have "?s < 8 * bitmap_size ?h" by linarith
  from div8_less [OF this] have d: "?s div 8 < bitmap_size ?h" .
  from s(1) have d0: "0 \<le> ?s div 8" by (simp add: pos_imp_zdiv_nonneg_iff)
  from d d0 show "nat (?s div 8) < nat (bitmap_size ?h)" by simp
  from d h(5) len s(1) show "Bitmap_in_range (data pg) ?s"
    by (simp add: Bitmap_in_range_def)
  from s(1) h(1) have m: "0 \<le> ?s * record_size ?h" by simp
  then show o: "bitmap_size ?h \<le> slot_offset ?h ?s" by (simp add: slot_offset_def)
  from s(2) have "?s + 1 \<le> num_records_per_page ?h" by simp
  from mult_right_mono [OF this h(1)]
  have "?s * record_size ?h + record_size ?h \<le> num_records_per_page ?h * record_size ?h"
    by (simp add: distrib_right)
  then show e: "slot_offset ?h ?s + record_size ?h \<le>
      bitmap_size ?h + num_records_per_page ?h * record_size ?h"
    by (simp add: slot_offset_def)
  from o e h len show "slot_in_range ?h pg ?s"
    by (simp add: slot_in_range_def)
qed


text \<open>A call inside the page finds its bit and its bytes in the page.\<close>

lemma in_page_layout:
  assumes lay: "layout_ok fh" and len: "length (data pg) = page_bytes fh"
  shows "bit_in_page fh r \<Longrightarrow> Bitmap_in_range (data pg) (slot_no r)"
    and "slot_in_page fh r \<Longrightarrow> slot_in_range (file_hdr fh) pg (slot_no r)"
proof -
  note h = layout_ok_hdr [OF lay]
  show "bit_in_page fh r \<Longrightarrow> Bitmap_in_range (data pg) (slot_no r)"
    using len by (simp add: bit_in_page_def Bitmap_in_range_def)
  assume sp: "slot_in_page fh r"
  then have s0: "0 \<le> slot_no r" by (simp add: slot_in_page_def)
  with h(1) have "0 \<le> slot_no r * record_size (file_hdr fh)" by simp
  with h(4) have "0 \<le> slot_offset (file_hdr fh) (slot_no r)" by (simp add: slot_offset_def)
  with sp h len show "slot_in_range (file_hdr fh) pg (slot_no r)"
    by (simp add: slot_in_page_def slot_in_range_def)
qed

lemma same_params_refl [simp]: "same_params fh fh"
  by (simp add: same_params_def)


lemma same_params_put_page [simp]: "same_params fh (put_page fh' p pg) = same_params fh fh'"
  by (simp add: same_params_def)

lemma same_params_call_ok:
  "same_params fh fh' \<Longrightarrow> call_ok (file_hdr fh') c = call_ok (file_hdr fh) c"
  by (cases c) (simp_all add: same_params_def slot_ok_def buf_in_range_def)

lemma same_params_call_in_page:
  "same_params fh fh' \<Longrightarrow> call_in_page fh' c = call_in_page fh c"
  by (cases c)
    (simp_all add: same_params_def bit_in_page_def slot_in_page_def buf_in_range_def
       slot_offset_def)


section \<open>The free list as a path through the pages\<close>


lemma fl_path_range: "fl_path nx n s ps \<Longrightarrow> p \<in> set ps \<Longrightarrow> 1 \<le> p \<and> p \<le> int n"
  by (induction ps arbitrary: s) auto

lemma fl_path_cong:
  "fl_path nx n s ps \<Longrightarrow> (\<forall>p \<in> set ps. nx' p = nx p) \<Longrightarrow> n \<le> n' \<Longrightarrow> fl_path nx' n' s ps"
  by (induction ps arbitrary: s) auto

lemma fl_path_unlink:
  "fl_path nx n s (xs @ q # p # ys) \<Longrightarrow> distinct (xs @ q # p # ys) \<Longrightarrow>
   nx' q = nx p \<Longrightarrow> (\<forall>r. r \<noteq> q \<longrightarrow> nx' r = nx r) \<Longrightarrow>
     fl_path nx' n s (xs @ q # ys)"
proof (induction xs arbitrary: s)
  case Nil
  then have "fl_path nx n (nx p) ys" and "q \<notin> set ys" by auto
  with Nil.prems(4) have "fl_path nx' n (nx p) ys"
    by (auto intro: fl_path_cong)
  with Nil show ?case by simp
next
  case (Cons r xs)
  then have "fl_path nx' n (nx r) (xs @ q # ys)"
    by (intro Cons.IH) auto
  moreover from Cons.prems have "r \<noteq> q" by auto
  ultimately show ?case using Cons.prems by simp
qed

lemma count_list_one_mem: "count_list xs x = Suc 0 \<Longrightarrow> x \<in> set xs"
  by (rule ccontr) simp

lemma distinct_count_list: "distinct xs \<longleftrightarrow> (\<forall>x \<in> set xs. count_list xs x = 1)"
  by (induction xs) (auto simp: count_list_0_iff)

lemma fl_path_length:
  assumes "fl_path nx n s ps" and "distinct ps"
  shows "length ps \<le> n"
proof -
  from assms(1) have "set ps \<subseteq> {1..int n}"
    by (auto dest: fl_path_range)
  then have "card (set ps) \<le> card {1..int n}"
    by (intro card_mono) auto
  with assms(2) show ?thesis by (simp add: distinct_card)
qed

lemma walk_fl_path:
  "walk pgs k s = Some ps \<Longrightarrow> fl_path (nxt pgs) (length pgs) s ps"
proof (induction k arbitrary: s ps)
  case 0
  then show ?case by (auto split: if_splits)
next
  case (Suc k)
  then show ?case
    by (auto simp: nxt_def page_at_def split: if_splits)
qed

lemma fl_path_walk:
  "fl_path (nxt pgs) (length pgs) s ps \<Longrightarrow> length ps \<le> k \<Longrightarrow> walk pgs k s = Some ps"
proof (induction k arbitrary: s ps)
  case 0
  then show ?case by simp
next
  case (Suc k)
  show ?case
  proof (cases ps)
    case Nil
    with Suc.prems show ?thesis by simp
  next
    case (Cons p qs)
    with Suc.prems have "walk pgs k (nxt pgs p) = Some qs"
      by (intro Suc.IH) auto
    with Cons Suc.prems show ?thesis
      by (auto simp: nxt_def page_at_def RM_NO_PAGE_def)
  qed
qed

lemma free_inv_free_list:
  assumes "free_inv fh ps"
  shows "free_list fh = Some ps"
proof -
  from assms have p: "fl_path (nxt (pages fh)) (length (pages fh))
      (first_free_page_no (file_hdr fh)) ps" and d: "distinct ps"
    by (simp_all add: free_inv_def)
  from fl_path_walk [OF p fl_path_length [OF p d]] show ?thesis
    by (simp add: free_list_def)
qed

lemma free_list_ok_iff: "free_list_ok fh \<longleftrightarrow> (\<exists>ps. free_inv fh ps)"
proof
  assume ok: "free_list_ok fh"
  then obtain ps where fl: "free_list fh = Some ps"
    by (auto simp: free_list_ok_def split: option.splits)
  let ?pgs = "pages fh" and ?n = "num_records_per_page (file_hdr fh)"
  from ok fl have all: "\<And>i. i < length ?pgs \<Longrightarrow>
            (if num_records (?pgs ! i) < ?n
             then count_list ps (int i + 1) = 1
             else int i + 1 \<notin> set ps \<and> next_free_page_no (?pgs ! i) = RM_NO_PAGE)"
    by (simp add: free_list_ok_def)
  from fl have path: "fl_path (nxt ?pgs) (length ?pgs) (first_free_page_no (file_hdr fh)) ps"
    by (simp add: free_list_def walk_fl_path)
  have idx: "\<And>p. 1 \<le> p \<Longrightarrow> p \<le> int (length ?pgs) \<Longrightarrow>
      nat (p - 1) < length ?pgs \<and> int (nat (p - 1)) + 1 = p"
    by auto
  have cnt: "\<And>p. p \<in> set ps \<Longrightarrow> count_list ps p = 1"
  proof -
    fix p assume p: "p \<in> set ps"
    from fl_path_range [OF path p] idx [of p] all [of "nat (p - 1)"] p
    show "count_list ps p = 1" by (auto split: if_splits)
  qed
  have d: "distinct ps"
    using cnt by (simp add: distinct_count_list)
  have "\<And>p. 1 \<le> p \<Longrightarrow> p \<le> int (length ?pgs) \<Longrightarrow>
        (p \<in> set ps \<longleftrightarrow> num_records (page_at ?pgs p) < ?n) \<and>
        (p \<notin> set ps \<longrightarrow> nxt ?pgs p = RM_NO_PAGE)"
  proof -
    fix p assume "1 \<le> p" "p \<le> int (length ?pgs)"
    from idx [OF this] all [of "nat (p - 1)"]
    show "(p \<in> set ps \<longleftrightarrow> num_records (page_at ?pgs p) < ?n) \<and>
        (p \<notin> set ps \<longrightarrow> nxt ?pgs p = RM_NO_PAGE)"
      by (auto simp: page_at_def nxt_def dest: count_list_one_mem split: if_splits)
  qed
  with path d have "free_inv fh ps" by (simp add: free_inv_def)
  then show "\<exists>ps. free_inv fh ps" ..
next
  assume "\<exists>ps. free_inv fh ps"
  then obtain ps where inv: "free_inv fh ps" ..
  from free_inv_free_list [OF inv] have fl: "free_list fh = Some ps" .
  from inv have d: "distinct ps" by (simp add: free_inv_def)
  let ?pgs = "pages fh" and ?n = "num_records_per_page (file_hdr fh)"
  have "\<And>i. i < length ?pgs \<Longrightarrow>
            (if num_records (?pgs ! i) < ?n
             then count_list ps (int i + 1) = 1
             else int i + 1 \<notin> set ps \<and> next_free_page_no (?pgs ! i) = RM_NO_PAGE)"
  proof -
    fix i assume i: "i < length ?pgs"
    then have r: "1 \<le> int i + 1 \<and> int i + 1 \<le> int (length ?pgs)" by simp
    have pa: "page_at ?pgs (int i + 1) = ?pgs ! i" by (simp add: page_at_def)
    from inv r have
      "(int i + 1 \<in> set ps \<longleftrightarrow> num_records (page_at ?pgs (int i + 1)) < ?n) \<and>
        (int i + 1 \<notin> set ps \<longrightarrow> nxt ?pgs (int i + 1) = RM_NO_PAGE)"
      unfolding free_inv_def by blast
    with d show "(if num_records (?pgs ! i) < ?n
             then count_list ps (int i + 1) = 1
             else int i + 1 \<notin> set ps \<and> next_free_page_no (?pgs ! i) = RM_NO_PAGE)"
      by (auto simp: pa nxt_def distinct_count_list split: if_splits)
  qed
  with fl show "free_list_ok fh" by (simp add: free_list_ok_def)
qed

lemma free_inv_fl_ok:
  "free_inv fh ps =
     fl_ok (nxt (pages fh)) (\<lambda>p. num_records (page_at (pages fh) p))
       (first_free_page_no (file_hdr fh)) (length (pages fh))
       (num_records_per_page (file_hdr fh)) ps"
  by (simp add: free_inv_def fl_ok_def)

lemma fl_ok_stay:
  assumes "fl_ok nx cnt first len n ps"
    and "\<forall>p. 1 \<le> p \<and> p \<le> int len \<longrightarrow> nx' p = nx p \<and> (cnt' p < n) = (cnt p < n)"
  shows "fl_ok nx' cnt' first len n ps"
proof -
  from assms(1) have path: "fl_path nx len first ps" by (simp add: fl_ok_def)
  have "\<forall>p \<in> set ps. nx' p = nx p"
    using assms(2) fl_path_range [OF path] by blast
  from fl_path_cong [OF path this] have "fl_path nx' len first ps" by simp
  with assms show ?thesis by (simp add: fl_ok_def)
qed

lemma fl_ok_remove_head:
  assumes "fl_ok nx cnt first len n (p # ys)"
    and "nx' p = RM_NO_PAGE" and "\<not> cnt' p < n"
    and "\<forall>r. 1 \<le> r \<and> r \<le> int len \<and> r \<noteq> p \<longrightarrow> nx' r = nx r \<and> cnt' r = cnt r"
  shows "fl_ok nx' cnt' (nx p) len n ys"
proof -
  from assms(1) have path: "fl_path nx len (nx p) ys" and d: "p \<notin> set ys" "distinct ys"
    by (simp_all add: fl_ok_def)
  have "\<forall>r \<in> set ys. nx' r = nx r"
    using assms(4) fl_path_range [OF path] d by blast
  from fl_path_cong [OF path this] have "fl_path nx' len (nx p) ys" by simp
  moreover have "\<forall>r. 1 \<le> r \<and> r \<le> int len \<longrightarrow>
        (r \<in> set ys \<longleftrightarrow> cnt' r < n) \<and> (r \<notin> set ys \<longrightarrow> nx' r = RM_NO_PAGE)"
  proof (intro allI impI)
    fix r assume r: "1 \<le> r \<and> r \<le> int len"
    show "(r \<in> set ys \<longleftrightarrow> cnt' r < n) \<and> (r \<notin> set ys \<longrightarrow> nx' r = RM_NO_PAGE)"
    proof (cases "r = p")
      case True
      with assms(2,3) d show ?thesis by simp
    next
      case False
      with r assms(4) have "nx' r = nx r" "cnt' r = cnt r" by simp_all
      moreover from assms(1) r have
        "(r \<in> set (p # ys) \<longleftrightarrow> cnt r < n) \<and> (r \<notin> set (p # ys) \<longrightarrow> nx r = RM_NO_PAGE)"
        unfolding fl_ok_def by blast
      ultimately show ?thesis using False by simp
    qed
  qed
  ultimately show ?thesis using d unfolding fl_ok_def by blast
qed

lemma fl_ok_remove_mid:
  assumes "fl_ok nx cnt first len n (xs @ q # p # ys)"
    and "nx' p = RM_NO_PAGE" and "\<not> cnt' p < n" and "nx' q = nx p" and "cnt' q = cnt q"
    and "\<forall>r. 1 \<le> r \<and> r \<le> int len \<and> r \<noteq> p \<and> r \<noteq> q \<longrightarrow> nx' r = nx r \<and> cnt' r = cnt r"
  shows "fl_ok nx' cnt' first len n (xs @ q # ys)"
proof -
  let ?nx = "\<lambda>r. if r = q then nx p else nx r"
  from assms(1) have path: "fl_path nx len first (xs @ q # p # ys)"
    and d: "distinct (xs @ q # p # ys)"
    by (simp_all add: fl_ok_def)
  from fl_path_unlink [OF path d, of ?nx] have p1: "fl_path ?nx len first (xs @ q # ys)"
    by simp
  have "\<forall>r \<in> set (xs @ q # ys). nx' r = ?nx r"
  proof
    fix r assume r: "r \<in> set (xs @ q # ys)"
    with d have "r \<noteq> p" by auto
    moreover from fl_path_range [OF p1 r] have "1 \<le> r \<and> r \<le> int len" .
    ultimately show "nx' r = ?nx r" using assms(4,6) by auto
  qed
  from fl_path_cong [OF p1 this] have "fl_path nx' len first (xs @ q # ys)" by simp
  moreover from d have "distinct (xs @ q # ys)" by auto
  moreover have "\<forall>r. 1 \<le> r \<and> r \<le> int len \<longrightarrow>
        (r \<in> set (xs @ q # ys) \<longleftrightarrow> cnt' r < n) \<and>
        (r \<notin> set (xs @ q # ys) \<longrightarrow> nx' r = RM_NO_PAGE)"
  proof (intro allI impI)
    fix r assume r: "1 \<le> r \<and> r \<le> int len"
    from assms(1) r have old:
      "(r \<in> set (xs @ q # p # ys) \<longleftrightarrow> cnt r < n) \<and>
       (r \<notin> set (xs @ q # p # ys) \<longrightarrow> nx r = RM_NO_PAGE)"
      unfolding fl_ok_def by blast
    show "(r \<in> set (xs @ q # ys) \<longleftrightarrow> cnt' r < n) \<and>
        (r \<notin> set (xs @ q # ys) \<longrightarrow> nx' r = RM_NO_PAGE)"
    proof (cases "r = p")
      case True
      with assms(2,3) d show ?thesis by auto
    next
      case np: False
      show ?thesis
      proof (cases "r = q")
        case True
        with old assms(5) show ?thesis by auto
      next
        case False
        with np r assms(6) have "nx' r = nx r" "cnt' r = cnt r" by simp_all
        with old np False show ?thesis by auto
      qed
    qed
  qed
  ultimately show ?thesis unfolding fl_ok_def by blast
qed

lemma fl_ok_prepend:
  assumes "fl_ok nx cnt first len n ps"
    and "1 \<le> p" and "p \<le> int len" and "p \<notin> set ps"
    and "nx' p = first" and "cnt' p < n"
    and "\<forall>r. 1 \<le> r \<and> r \<le> int len \<and> r \<noteq> p \<longrightarrow> nx' r = nx r \<and> cnt' r = cnt r"
  shows "fl_ok nx' cnt' p len n (p # ps)"
proof -
  from assms(1) have path: "fl_path nx len first ps" and d: "distinct ps"
    by (simp_all add: fl_ok_def)
  have "\<forall>r \<in> set ps. nx' r = nx r"
    using assms(4,7) fl_path_range [OF path] by blast
  from fl_path_cong [OF path this] have "fl_path nx' len first ps" by simp
  with assms(2,3,5) have "fl_path nx' len p (p # ps)" by simp
  moreover have "\<forall>r. 1 \<le> r \<and> r \<le> int len \<longrightarrow>
        (r \<in> set (p # ps) \<longleftrightarrow> cnt' r < n) \<and> (r \<notin> set (p # ps) \<longrightarrow> nx' r = RM_NO_PAGE)"
  proof (intro allI impI)
    fix r assume r: "1 \<le> r \<and> r \<le> int len"
    show "(r \<in> set (p # ps) \<longleftrightarrow> cnt' r < n) \<and> (r \<notin> set (p # ps) \<longrightarrow> nx' r = RM_NO_PAGE)"
    proof (cases "r = p")
      case True
      with assms(6) show ?thesis by simp
    next
      case False
      with r assms(7) have "nx' r = nx r" "cnt' r = cnt r" by simp_all
      moreover from assms(1) r have
        "(r \<in> set ps \<longleftrightarrow> cnt r < n) \<and> (r \<notin> set ps \<longrightarrow> nx r = RM_NO_PAGE)"
        unfolding fl_ok_def by blast
      ultimately show ?thesis using False by simp
    qed
  qed
  moreover from d assms(4) have "distinct (p # ps)" by simp
  ultimately show ?thesis unfolding fl_ok_def by blast
qed

lemma fl_ok_new_page:
  assumes "fl_ok nx cnt first len n []"
    and "nx' (int len + 1) = RM_NO_PAGE" and "cnt' (int len + 1) < n"
    and "\<forall>r. 1 \<le> r \<and> r \<le> int len \<longrightarrow> nx' r = nx r \<and> cnt' r = cnt r"
  shows "fl_ok nx' cnt' (int len + 1) (Suc len) n [int len + 1]"
proof -
  have "\<forall>r. 1 \<le> r \<and> r \<le> int (Suc len) \<longrightarrow>
        (r \<in> set [int len + 1] \<longleftrightarrow> cnt' r < n) \<and>
        (r \<notin> set [int len + 1] \<longrightarrow> nx' r = RM_NO_PAGE)"
  proof (intro allI impI)
    fix r assume r: "1 \<le> r \<and> r \<le> int (Suc len)"
    show "(r \<in> set [int len + 1] \<longleftrightarrow> cnt' r < n) \<and>
        (r \<notin> set [int len + 1] \<longrightarrow> nx' r = RM_NO_PAGE)"
    proof (cases "r = int len + 1")
      case True
      with assms(3) show ?thesis by simp
    next
      case False
      with r have r': "1 \<le> r \<and> r \<le> int len" by simp
      with assms(4) have "nx' r = nx r" "cnt' r = cnt r" by simp_all
      moreover from assms(1) r' have
        "(r \<in> set [] \<longleftrightarrow> cnt r < n) \<and> (r \<notin> set [] \<longrightarrow> nx r = RM_NO_PAGE)"
        unfolding fl_ok_def by blast
      ultimately show ?thesis using False by simp
    qed
  qed
  moreover from assms(2) have "fl_path nx' (Suc len) (int len + 1) [int len + 1]" by simp
  ultimately show ?thesis unfolding fl_ok_def by simp
qed

section \<open>Well-formed files and the moves of the free list\<close>

lemma page_at_put_page:
  "1 \<le> p \<Longrightarrow> p \<le> int (length (pages fh)) \<Longrightarrow> 1 \<le> r \<Longrightarrow>
     page_at (pages (put_page fh p pg')) r = (if r = p then pg' else page_at (pages fh) r)"
  by (auto simp: put_page_def page_at_def nth_list_update)

lemma page_at_hdr_update [simp]: "page_at (pages (fh\<lparr>file_hdr := h\<rparr>)) r = page_at (pages fh) r"
  by simp

lemma fetch_page_at:
  "fetch_page_handle fh p = Inr pg \<Longrightarrow>
     1 \<le> p \<and> p \<le> int (length (pages fh)) \<and> pg = page_at (pages fh) p"
  by (simp add: fetch_page_handle_Inr page_at_def)

lemma rm_inv_fetch:
  "rm_inv fh ps \<Longrightarrow> 1 \<le> p \<Longrightarrow> p \<le> int (length (pages fh)) \<Longrightarrow>
     fetch_page_handle fh p = Inr (page_at (pages fh) p)"
  by (simp add: rm_inv_def layout_ok_def fetch_page_handle_Inr page_at_def)

lemma rm_inv_layout: "rm_inv fh ps \<Longrightarrow> layout_ok fh"
  by (simp add: rm_inv_def)

lemma pages_len_update:
  assumes "\<forall>pg \<in> set pgs. length (data pg) = n" and "length (data pg') = n"
  shows "\<forall>pg \<in> set (pgs[i := pg']). length (data pg) = n"
proof
  fix pg assume "pg \<in> set (pgs[i := pg'])"
  then have "pg = pg' \<or> pg \<in> set pgs"
    using set_update_subset_insert [of pgs i pg'] by auto
  with assms show "length (data pg) = n" by auto
qed

lemma layout_ok_put_page:
  assumes "layout_ok fh" and "length (data pg') = page_bytes fh"
  shows "layout_ok (put_page fh p pg')"
  using assms pages_len_update [of "pages fh" "page_bytes fh" pg' "nat (p - 1)"]
  by (simp add: layout_ok_def put_page_def)

lemma rm_inv_intro:
  assumes "rm_inv fh ps"
    and "file_hdr fh' = (file_hdr fh)\<lparr>first_free_page_no := f'\<rparr>"
    and "length (pages fh') = length (pages fh)"
    and "page_bytes fh' = page_bytes fh"
    and "\<forall>pg \<in> set (pages fh'). length (data pg) = page_bytes fh"
    and "fl_ok (nxt (pages fh')) (\<lambda>p. num_records (page_at (pages fh') p)) f'
           (length (pages fh)) (num_records_per_page (file_hdr fh)) ps'"
  shows "rm_inv fh' ps'"
  using assms by (simp add: rm_inv_def layout_ok_def hdr_ok_def free_inv_fl_ok)

lemma rm_inv_fl_ok:
  "rm_inv fh ps \<Longrightarrow>
     fl_ok (nxt (pages fh)) (\<lambda>p. num_records (page_at (pages fh) p))
       (first_free_page_no (file_hdr fh)) (length (pages fh))
       (num_records_per_page (file_hdr fh)) ps"
  by (simp add: rm_inv_def free_inv_fl_ok)

lemma rm_inv_member:
  assumes "rm_inv fh ps" and "1 \<le> p" and "p \<le> int (length (pages fh))"
  shows "p \<in> set ps \<longleftrightarrow>
           num_records (page_at (pages fh) p) < num_records_per_page (file_hdr fh)"
  using rm_inv_fl_ok [OF assms(1)] assms(2,3) unfolding fl_ok_def by blast

lemma rm_inv_pages_len:
  assumes "rm_inv fh ps" and "length (data pg') = page_bytes fh"
  shows "\<forall>pg \<in> set ((pages fh)[i := pg']). length (data pg) = page_bytes fh"
  using assms by (intro pages_len_update) (simp_all add: rm_inv_def layout_ok_def)

text \<open>A page is replaced by one with the same successor that is as full or as free as
  before: the free list stays.\<close>

lemma rm_inv_put_stay:
  assumes inv: "rm_inv fh ps" and p: "1 \<le> p" "p \<le> int (length (pages fh))"
    and len: "length (data pg') = page_bytes fh"
    and nx: "next_free_page_no pg' = next_free_page_no (page_at (pages fh) p)"
    and cnt: "(num_records pg' < num_records_per_page (file_hdr fh)) =
              (num_records (page_at (pages fh) p) < num_records_per_page (file_hdr fh))"
  shows "rm_inv (put_page fh p pg') ps"
proof (rule rm_inv_intro [OF inv])
  show "file_hdr (put_page fh p pg') =
          (file_hdr fh)\<lparr>first_free_page_no := first_free_page_no (file_hdr fh)\<rparr>"
    by simp
  show "length (pages (put_page fh p pg')) = length (pages fh)" by simp
  show "page_bytes (put_page fh p pg') = page_bytes fh" by simp
  from rm_inv_pages_len [OF inv len]
  show "\<forall>pg \<in> set (pages (put_page fh p pg')). length (data pg) = page_bytes fh"
    by (simp add: put_page_def)
  show "fl_ok (nxt (pages (put_page fh p pg')))
          (\<lambda>r. num_records (page_at (pages (put_page fh p pg')) r))
          (first_free_page_no (file_hdr fh)) (length (pages fh))
          (num_records_per_page (file_hdr fh)) ps"
  proof (rule fl_ok_stay [OF rm_inv_fl_ok [OF inv]], intro allI impI)
    fix r assume "1 \<le> r \<and> r \<le> int (length (pages fh))"
    with p nx cnt show "nxt (pages (put_page fh p pg')) r = nxt (pages fh) r \<and>
      (num_records (page_at (pages (put_page fh p pg')) r) < num_records_per_page (file_hdr fh)) =
      (num_records (page_at (pages fh) r) < num_records_per_page (file_hdr fh))"
      by (simp add: nxt_def page_at_put_page)
  qed
qed

text \<open>The head of the free list becomes full and leaves the list.\<close>

lemma rm_inv_remove_head:
  assumes inv: "rm_inv fh (p # ys)"
    and len: "length (data pg') = page_bytes fh"
    and full: "num_records pg' = num_records_per_page (file_hdr fh)"
  shows "rm_inv ((put_page fh p (pg'\<lparr>next_free_page_no := RM_NO_PAGE\<rparr>))
                   \<lparr>file_hdr := (file_hdr fh)\<lparr>first_free_page_no := nxt (pages fh) p\<rparr>\<rparr>) ys"
proof (rule rm_inv_intro [OF inv])
  let ?fh' = "(put_page fh p (pg'\<lparr>next_free_page_no := RM_NO_PAGE\<rparr>))
                   \<lparr>file_hdr := (file_hdr fh)\<lparr>first_free_page_no := nxt (pages fh) p\<rparr>\<rparr>"
  from rm_inv_fl_ok [OF inv] have path:
    "fl_path (nxt (pages fh)) (length (pages fh)) (first_free_page_no (file_hdr fh)) (p # ys)"
    by (simp add: fl_ok_def)
  then have p: "1 \<le> p" "p \<le> int (length (pages fh))" by simp_all
  show "file_hdr ?fh' = (file_hdr fh)\<lparr>first_free_page_no := nxt (pages fh) p\<rparr>" by simp
  show "length (pages ?fh') = length (pages fh)" by simp
  show "page_bytes ?fh' = page_bytes fh" by simp
  from rm_inv_pages_len [OF inv, of "pg'\<lparr>next_free_page_no := RM_NO_PAGE\<rparr>"] len
  show "\<forall>pg \<in> set (pages ?fh'). length (data pg) = page_bytes fh"
    by (simp add: put_page_def)
  show "fl_ok (nxt (pages ?fh')) (\<lambda>r. num_records (page_at (pages ?fh') r))
          (nxt (pages fh) p) (length (pages fh)) (num_records_per_page (file_hdr fh)) ys"
  proof (rule fl_ok_remove_head [OF rm_inv_fl_ok [OF inv]])
    show "nxt (pages ?fh') p = RM_NO_PAGE"
      using p by (simp add: nxt_def page_at_put_page)
    show "\<not> num_records (page_at (pages ?fh') p) < num_records_per_page (file_hdr fh)"
      using p full by (simp add: page_at_put_page)
    show "\<forall>r. 1 \<le> r \<and> r \<le> int (length (pages fh)) \<and> r \<noteq> p \<longrightarrow>
        nxt (pages ?fh') r = nxt (pages fh) r \<and>
        num_records (page_at (pages ?fh') r) = num_records (page_at (pages fh) r)"
      using p by (simp add: nxt_def page_at_put_page)
  qed
qed

text \<open>A full page gets a free slot and goes to the head of the free list.\<close>

lemma rm_inv_prepend:
  assumes inv: "rm_inv fh ps" and p: "1 \<le> p" "p \<le> int (length (pages fh))"
    and np: "p \<notin> set ps"
    and len: "length (data pg') = page_bytes fh"
    and free: "num_records pg' < num_records_per_page (file_hdr fh)"
  shows "rm_inv ((put_page fh p (pg'\<lparr>next_free_page_no := first_free_page_no (file_hdr fh)\<rparr>))
                   \<lparr>file_hdr := (file_hdr fh)\<lparr>first_free_page_no := p\<rparr>\<rparr>) (p # ps)"
proof (rule rm_inv_intro [OF inv])
  let ?fh' = "(put_page fh p (pg'\<lparr>next_free_page_no := first_free_page_no (file_hdr fh)\<rparr>))
                   \<lparr>file_hdr := (file_hdr fh)\<lparr>first_free_page_no := p\<rparr>\<rparr>"
  show "file_hdr ?fh' = (file_hdr fh)\<lparr>first_free_page_no := p\<rparr>" by simp
  show "length (pages ?fh') = length (pages fh)" by simp
  show "page_bytes ?fh' = page_bytes fh" by simp
  from rm_inv_pages_len [OF inv,
      of "pg'\<lparr>next_free_page_no := first_free_page_no (file_hdr fh)\<rparr>"] len
  show "\<forall>pg \<in> set (pages ?fh'). length (data pg) = page_bytes fh"
    by (simp add: put_page_def)
  show "fl_ok (nxt (pages ?fh')) (\<lambda>r. num_records (page_at (pages ?fh') r))
          p (length (pages fh)) (num_records_per_page (file_hdr fh)) (p # ps)"
  proof (rule fl_ok_prepend [OF rm_inv_fl_ok [OF inv] p np])
    show "nxt (pages ?fh') p = first_free_page_no (file_hdr fh)"
      using p by (simp add: nxt_def page_at_put_page)
    show "num_records (page_at (pages ?fh') p) < num_records_per_page (file_hdr fh)"
      using p free by (simp add: page_at_put_page)
    show "\<forall>r. 1 \<le> r \<and> r \<le> int (length (pages fh)) \<and> r \<noteq> p \<longrightarrow>
        nxt (pages ?fh') r = nxt (pages fh) r \<and>
        num_records (page_at (pages ?fh') r) = num_records (page_at (pages fh) r)"
      using p by (simp add: nxt_def page_at_put_page)
  qed
qed

text \<open>The loop finds the predecessor \<open>q\<close> of the target \<open>p\<close> on a free list without
  repetition, and links it to the successor of the target.\<close>

lemma unlink_loop_finds:
  assumes "fl_path (nxt (pages fh)) (length (pages fh)) start (xs @ q # p # ys)"
    and "distinct (xs @ q # p # ys)"
    and "num_pages (file_hdr fh) = int (length (pages fh)) + 1"
  shows "unlink_loop fh p tn start =
           Some (Inr (), put_page fh q ((page_at (pages fh) q)\<lparr>next_free_page_no := tn\<rparr>))"
  using assms(1,2)
proof (induction xs arbitrary: start)
  case Nil
  then have s: "start = q" "1 \<le> q" "q \<le> int (length (pages fh))" "nxt (pages fh) q = p"
    by simp_all
  then have "fetch_page_handle fh q = Inr (page_at (pages fh) q)"
    using assms(3) by (simp add: fetch_page_handle_Inr page_at_def)
  with s show ?case
    by (subst unlink_loop.simps) (simp add: RM_NO_PAGE_def nxt_def)
next
  case (Cons r xs)
  then have s: "start = r" "1 \<le> r" "r \<le> int (length (pages fh))"
    and rest: "fl_path (nxt (pages fh)) (length (pages fh)) (nxt (pages fh) r) (xs @ q # p # ys)"
    and d: "distinct (xs @ q # p # ys)" and rp: "r \<noteq> p"
    by simp_all
  from rest d have "nxt (pages fh) r \<noteq> p" by (cases xs) auto
  moreover from s have "fetch_page_handle fh r = Inr (page_at (pages fh) r)"
    using assms(3) by (simp add: fetch_page_handle_Inr page_at_def)
  moreover note Cons.IH [OF rest d]
  ultimately show ?case using s
    by (subst unlink_loop.simps) (simp add: RM_NO_PAGE_def nxt_def)
qed

text \<open>A page inside the free list becomes full and leaves the list: its predecessor is
  linked to its successor.\<close>

lemma rm_inv_remove_mid:
  assumes inv: "rm_inv fh (xs @ q # p # ys)"
    and len: "length (data pg') = page_bytes fh"
    and full: "num_records pg' = num_records_per_page (file_hdr fh)"
    and fh': "fh' = put_page (put_page fh q
                      ((page_at (pages fh) q)\<lparr>next_free_page_no := nxt (pages fh) p\<rparr>))
                    p (pg'\<lparr>next_free_page_no := RM_NO_PAGE\<rparr>)"
  shows "rm_inv fh' (xs @ q # ys)"
proof (rule rm_inv_intro [OF inv])
  let ?qpg = "(page_at (pages fh) q)\<lparr>next_free_page_no := nxt (pages fh) p\<rparr>"
  from rm_inv_fl_ok [OF inv] have path:
    "fl_path (nxt (pages fh)) (length (pages fh)) (first_free_page_no (file_hdr fh))
       (xs @ q # p # ys)" and d: "distinct (xs @ q # p # ys)"
    by (simp_all add: fl_ok_def)
  from fl_path_range [OF path, of p] fl_path_range [OF path, of q]
  have p: "1 \<le> p" "p \<le> int (length (pages fh))" and q: "1 \<le> q" "q \<le> int (length (pages fh))"
    by simp_all
  from d have qp: "q \<noteq> p" by auto
  show "file_hdr fh' = (file_hdr fh)\<lparr>first_free_page_no := first_free_page_no (file_hdr fh)\<rparr>"
    by (simp add: fh')
  show "length (pages fh') = length (pages fh)" by (simp add: fh')
  show "page_bytes fh' = page_bytes fh" by (simp add: fh')
  from layout_ok_page [OF rm_inv_layout [OF inv] q] have "length (data ?qpg) = page_bytes fh"
    by simp
  from rm_inv_pages_len [OF inv this]
  have "\<forall>pg \<in> set ((pages fh)[nat (q - 1) := ?qpg]). length (data pg) = page_bytes fh" .
  from pages_len_update [OF this, of "pg'\<lparr>next_free_page_no := RM_NO_PAGE\<rparr>"] len
  show "\<forall>pg \<in> set (pages fh'). length (data pg) = page_bytes fh"
    by (simp add: fh' put_page_def)
  have pa: "\<And>r. 1 \<le> r \<Longrightarrow> page_at (pages fh') r =
      (if r = p then pg'\<lparr>next_free_page_no := RM_NO_PAGE\<rparr>
       else if r = q then ?qpg else page_at (pages fh) r)"
    using p q by (simp add: fh' page_at_put_page)
  show "fl_ok (nxt (pages fh')) (\<lambda>r. num_records (page_at (pages fh') r))
          (first_free_page_no (file_hdr fh)) (length (pages fh))
          (num_records_per_page (file_hdr fh)) (xs @ q # ys)"
  proof (rule fl_ok_remove_mid [OF rm_inv_fl_ok [OF inv]])
    show "nxt (pages fh') p = RM_NO_PAGE" using p by (simp add: nxt_def pa)
    show "\<not> num_records (page_at (pages fh') p) < num_records_per_page (file_hdr fh)"
      using p full by (simp add: pa)
    show "nxt (pages fh') q = nxt (pages fh) p" using q qp by (simp add: nxt_def pa)
    show "num_records (page_at (pages fh') q) = num_records (page_at (pages fh) q)"
      using q qp by (simp add: pa)
    show "\<forall>r. 1 \<le> r \<and> r \<le> int (length (pages fh)) \<and> r \<noteq> p \<and> r \<noteq> q \<longrightarrow>
        nxt (pages fh') r = nxt (pages fh) r \<and>
        num_records (page_at (pages fh') r) = num_records (page_at (pages fh) r)"
      by (simp add: nxt_def pa)
  qed
qed

lemma length_fresh_page:
  assumes "layout_ok fh"
  shows "length (data (fresh_page fh)) = page_bytes fh"
proof -
  note h = layout_ok_hdr [OF assms]
  from h(4,5) have "nat (bitmap_size (file_hdr fh)) \<le> page_bytes fh" by simp
  then show ?thesis by (simp add: fresh_page_def Bitmap_init_def new_page_def)
qed

lemma create_new_page_handle_eq:
  assumes "rm_inv fh ps"
  shows "create_new_page_handle fh = (Inr (new_page_no fh, fresh_page fh), add_page fh)"
proof -
  note h = layout_ok_hdr [OF rm_inv_layout [OF assms]]
  have "fetch_page_handle (add_page fh) (new_page_no fh) = Inr (fresh_page fh)"
    using h(7) by (simp add: fetch_page_handle_Inr add_page_def new_page_no_def)
  with h(4,5) show ?thesis
    by (simp add: create_new_page_handle_def Let_def add_page_def fresh_page_def)
qed

lemma same_params_add_page [simp]: "same_params fh (add_page fh)"
  by (simp add: same_params_def add_page_def)

lemma rm_inv_add_page:
  assumes inv: "rm_inv fh []"
  shows "rm_inv (add_page fh) [new_page_no fh]"
proof -
  let ?fh' = "add_page fh" and ?c = "new_page_no fh"
  note lay = rm_inv_layout [OF inv]
  note h = layout_ok_hdr [OF lay]
  from rm_inv_fl_ok [OF inv] have ff: "first_free_page_no (file_hdr fh) = RM_NO_PAGE"
    by (simp add: fl_ok_def)
  have pa: "\<And>r. 1 \<le> r \<Longrightarrow> r \<le> int (length (pages fh)) \<Longrightarrow>
      page_at (pages ?fh') r = page_at (pages fh) r"
    by (simp add: add_page_def page_at_def nth_append)
  have pc: "page_at (pages ?fh') ?c = fresh_page fh"
    by (simp add: add_page_def page_at_def new_page_no_def)
  have "layout_ok ?fh'"
    using lay length_fresh_page [OF lay] by (simp add: add_page_def layout_ok_def hdr_ok_def)
  moreover have "fl_ok (nxt (pages ?fh')) (\<lambda>r. num_records (page_at (pages ?fh') r))
      (int (length (pages fh)) + 1) (Suc (length (pages fh)))
      (num_records_per_page (file_hdr fh)) [int (length (pages fh)) + 1]"
  proof (rule fl_ok_new_page [OF rm_inv_fl_ok [OF inv, unfolded ff]])
    show "nxt (pages ?fh') (int (length (pages fh)) + 1) = RM_NO_PAGE"
      using pc ff by (simp add: nxt_def new_page_no_def fresh_page_def)
    show "num_records (page_at (pages ?fh') (int (length (pages fh)) + 1))
            < num_records_per_page (file_hdr fh)"
      using pc h(2) by (simp add: new_page_no_def fresh_page_def)
    show "\<forall>r. 1 \<le> r \<and> r \<le> int (length (pages fh)) \<longrightarrow>
        nxt (pages ?fh') r = nxt (pages fh) r \<and>
        num_records (page_at (pages ?fh') r) = num_records (page_at (pages fh) r)"
      by (simp add: nxt_def pa)
  qed
  ultimately show ?thesis
    by (simp add: rm_inv_def free_inv_fl_ok add_page_def new_page_no_def)
qed

lemma create_page_handle_inv:
  assumes inv: "rm_inv fh ps"
  shows "\<exists>pno ys fh1.
           create_page_handle fh = (Inr (pno, page_at (pages fh1) pno), fh1) \<and>
           rm_inv fh1 (pno # ys) \<and> same_params fh fh1 \<and>
           (ps \<noteq> [] \<longrightarrow> fh1 = fh \<and> ps = pno # ys) \<and>
           (ps = [] \<longrightarrow> fh1 = add_page fh \<and> pno = new_page_no fh \<and> ys = [])"
proof (cases ps)
  case Nil
  from rm_inv_fl_ok [OF inv] Nil have ff: "first_free_page_no (file_hdr fh) = RM_NO_PAGE"
    by (simp add: fl_ok_def)
  have "page_at (pages (add_page fh)) (new_page_no fh) = fresh_page fh"
    by (simp add: add_page_def page_at_def new_page_no_def)
  with create_new_page_handle_eq [OF inv] ff rm_inv_add_page [OF inv [unfolded Nil]] Nil
  show ?thesis by (simp add: create_page_handle_def)
next
  case (Cons p ys)
  from rm_inv_fl_ok [OF inv] Cons have ff: "first_free_page_no (file_hdr fh) = p"
    and p: "1 \<le> p" "p \<le> int (length (pages fh))"
    by (simp_all add: fl_ok_def)
  from p have "p \<noteq> RM_NO_PAGE" by (simp add: RM_NO_PAGE_def)
  with rm_inv_fetch [OF inv p] ff inv Cons show ?thesis
    by (simp add: create_page_handle_def)
qed

lemma insert_result_write_page:
  "insert_result fh1 pno pg sno buf =
    (if num_records pg + 1 = num_records_per_page (file_hdr fh1)
     then (put_page fh1 pno ((write_page (file_hdr fh1) pg sno buf)\<lparr>next_free_page_no := RM_NO_PAGE\<rparr>))
            \<lparr>file_hdr := (file_hdr fh1)\<lparr>first_free_page_no := next_free_page_no pg\<rparr>\<rparr>
     else put_page fh1 pno (write_page (file_hdr fh1) pg sno buf))"
  by (simp add: insert_result_def Let_def)

lemma same_params_hdr_first_free [simp]:
  "same_params fh (fh'\<lparr>file_hdr := (file_hdr fh')\<lparr>first_free_page_no := x\<rparr>\<rparr>) = same_params fh fh'"
  by (simp add: same_params_def)

lemma same_params_insert_result [simp]:
  "same_params fh (insert_result fh1 p pg s buf) = same_params fh fh1"
  by (simp add: insert_result_write_page same_params_def)

text \<open>Writing a record into a slot of the head of the free list.\<close>

lemma insert_result_inv:
  assumes inv: "rm_inv fh1 (p # ys)" and pg: "pg = page_at (pages fh1) p"
    and sr: "slot_in_range (file_hdr fh1) pg s" and br: "buf_in_range (file_hdr fh1) buf"
  shows "rm_inv (insert_result fh1 p pg s buf)
           (if num_records pg + 1 = num_records_per_page (file_hdr fh1) then ys else p # ys)"
proof -
  let ?hdr = "file_hdr fh1"
  let ?w = "write_page ?hdr pg s buf"
  from rm_inv_fl_ok [OF inv] have p: "1 \<le> p" "p \<le> int (length (pages fh1))"
    by (simp_all add: fl_ok_def)
  from layout_ok_page [OF rm_inv_layout [OF inv] p] pg length_write_page [OF sr br]
  have len: "length (data ?w) = page_bytes fh1" by simp
  from rm_inv_member [OF inv p] pg have free: "num_records pg < num_records_per_page ?hdr" by simp
  show ?thesis
  proof (cases "num_records pg + 1 = num_records_per_page ?hdr")
    case True
    from rm_inv_remove_head [OF inv len] True pg show ?thesis
      by (simp add: insert_result_write_page nxt_def)
  next
    case False
    with free have "num_records ?w < num_records_per_page ?hdr" by simp
    with rm_inv_put_stay [OF inv p len] free pg False show ?thesis
      by (simp add: insert_result_write_page)
  qed
qed

lemma insert_record_inv:
  assumes inv: "rm_inv fh ps"
  shows "\<exists>res fh' ps'. insert_record fh buf = (res, fh') \<and> rm_inv fh' ps' \<and>
           same_params fh fh' \<and> (buf_in_range (file_hdr fh) buf \<longrightarrow> res \<noteq> Inl MemoryFault)"
proof -
  from create_page_handle_inv [OF inv] obtain pno ys fh1 where
    cr: "create_page_handle fh = (Inr (pno, page_at (pages fh1) pno), fh1)" and
    inv1: "rm_inv fh1 (pno # ys)" and sp: "same_params fh fh1"
    by blast
  let ?hdr = "file_hdr fh1" and ?pg = "page_at (pages fh1) pno"
  let ?n = "num_records_per_page ?hdr"
  from rm_inv_fl_ok [OF inv1] have p: "1 \<le> pno" "pno \<le> int (length (pages fh1))"
    by (simp_all add: fl_ok_def)
  note lay = rm_inv_layout [OF inv1]
  note len = layout_ok_page [OF lay p]
  from sp have bs: "buf_in_range ?hdr buf = buf_in_range (file_hdr fh) buf"
    by (simp add: same_params_def buf_in_range_def)
  have rng: "\<forall>j. -1 < j \<and> j < ?n \<longrightarrow> Bitmap_in_range (data ?pg) j"
  proof (intro allI impI)
    fix j assume "-1 < j \<and> j < ?n"
    then have "slot_ok ?hdr (Rid pno j)" by (simp add: slot_ok_def)
    from slot_ok_layout(1) [OF lay len this] show "Bitmap_in_range (data ?pg) j" by simp
  qed
  from next_bit_total [OF rng, of False] obtain k where
    fb: "first_bit False (data ?pg) ?n = Some k" and
    kk: "(if \<exists>j. -1 < j \<and> j < ?n \<and> Bitmap_is_set (data ?pg) j = False
          then -1 < k \<and> k < ?n else k = ?n)"
    by (auto simp: first_bit_def)
  show ?thesis
  proof (cases "k < ?n")
    case False
    with cr fb have "insert_record fh buf = (Inl InternalError, fh1)"
      by (simp add: insert_record_def Let_def)
    with inv1 sp show ?thesis by auto
  next
    case True
    with kk have k0: "-1 < k" by (auto split: if_splits)
    with True have "slot_ok ?hdr (Rid pno k)" by (simp add: slot_ok_def)
    from slot_ok_layout(2) [OF lay len this] have sr: "slot_in_range ?hdr ?pg k" by simp
    show ?thesis
    proof (cases "buf_in_range ?hdr buf")
      case False
      with cr fb True sr have "insert_record fh buf = (Inl MemoryFault, fh1)"
        by (simp add: insert_record_def Let_def)
      with inv1 sp False bs show ?thesis by auto
    next
      case br: True
      from insert_record_eq [OF cr fb True sr br]
        insert_result_inv [OF inv1 refl sr br] sp
      show ?thesis by auto
    qed
  qed
qed

lemma delete_record_inv:
  assumes inv: "rm_inv fh ps"
  shows "\<exists>res fh' ps'. delete_record fh rid = (res, fh') \<and> rm_inv fh' ps' \<and>
           same_params fh fh' \<and> (bit_in_page fh rid \<longrightarrow> res \<noteq> Inl MemoryFault)"
proof (cases "fetch_page_handle fh (page_no rid)")
  case (Inl e)
  from fetch_page_handle_Inl [OF Inl] Inl inv show ?thesis
    by (auto simp: delete_record_def)
next
  case (Inr pg)
  let ?p = "page_no rid" and ?s = "slot_no rid" and ?hdr = "file_hdr fh"
  from fetch_page_at [OF Inr] have p: "1 \<le> ?p" "?p \<le> int (length (pages fh))"
    and pg: "pg = page_at (pages fh) ?p" by simp_all
  note lay = rm_inv_layout [OF inv]
  from layout_ok_page [OF lay p] pg have len: "length (data pg) = page_bytes fh" by simp
  show ?thesis
  proof (cases "Bitmap_in_range (data pg) ?s")
    case False
    with in_page_layout(1) [OF lay len, of rid] have "\<not> bit_in_page fh rid" by blast
    with False inv Inr show ?thesis by (auto simp: delete_record_def)
  next
    case ir: True
    show ?thesis
    proof (cases "Bitmap_is_set (data pg) ?s")
      case False
      with ir inv Inr show ?thesis by (auto simp: delete_record_def)
    next
      case True
      let ?pg2 = "pg\<lparr>data := Bitmap_reset (data pg) ?s, num_records := num_records pg - 1\<rparr>"
      from len have len2: "length (data ?pg2) = page_bytes fh" by simp
      show ?thesis
      proof (cases "num_records pg = num_records_per_page ?hdr")
        case full: True
        with rm_inv_member [OF inv p] pg have np: "?p \<notin> set ps" by simp
        from full have "num_records ?pg2 < num_records_per_page ?hdr" by simp
        from rm_inv_prepend [OF inv p np len2 this] Inr ir True full show ?thesis
          by (auto simp: delete_record_def Let_def release_page_handle_def same_params_def)
      next
        case False
        then have "(num_records ?pg2 < num_records_per_page ?hdr) =
                   (num_records pg < num_records_per_page ?hdr)" by auto
        with rm_inv_put_stay [OF inv p len2] pg Inr ir True False show ?thesis
          by (auto simp: delete_record_def Let_def)
      qed
    qed
  qed
qed

lemma update_record_inv:
  assumes inv: "rm_inv fh ps"
  shows "\<exists>res fh'. update_record fh rid buf = (res, fh') \<and> rm_inv fh' ps \<and>
           same_params fh fh' \<and>
           (bit_in_page fh rid \<and> slot_in_page fh rid \<and> buf_in_range (file_hdr fh) buf \<longrightarrow>
              res \<noteq> Inl MemoryFault)"
proof (cases "fetch_page_handle fh (page_no rid)")
  case (Inl e)
  from fetch_page_handle_Inl [OF Inl] Inl inv show ?thesis
    by (auto simp: update_record_def)
next
  case (Inr pg)
  let ?p = "page_no rid" and ?s = "slot_no rid" and ?hdr = "file_hdr fh"
  from fetch_page_at [OF Inr] have p: "1 \<le> ?p" "?p \<le> int (length (pages fh))"
    and pg: "pg = page_at (pages fh) ?p" by simp_all
  note lay = rm_inv_layout [OF inv]
  from layout_ok_page [OF lay p] pg have len: "length (data pg) = page_bytes fh" by simp
  note ip = in_page_layout [OF lay len, of rid]
  show ?thesis
  proof (cases "Bitmap_in_range (data pg) ?s \<and> Bitmap_is_set (data pg) ?s \<and>
                  slot_in_range ?hdr pg ?s \<and> buf_in_range ?hdr buf")
    case False
    with ip inv Inr show ?thesis by (auto simp: update_record_def)
  next
    case True
    let ?pg' = "memcpy_slot ?hdr pg ?s buf"
    from True len have "length (data ?pg') = page_bytes fh"
      by (simp add: length_memcpy_slot)
    from rm_inv_put_stay [OF inv p this] pg have "rm_inv (put_page fh ?p ?pg') ps" by simp
    with Inr True show ?thesis by (auto simp: update_record_def)
  qed
qed

lemma put_page_absorb:
  "put_page (put_page (put_page fh p w) q y) p x = put_page (put_page fh q y) p x"
  by (cases "nat (p - 1) = nat (q - 1)") (simp_all add: put_page_def list_update_swap)

lemma insert_record_at_inv:
  assumes inv: "rm_inv fh ps"
  shows "\<exists>res fh' ps'. insert_record_at fh rid buf = Some (res, fh') \<and> rm_inv fh' ps' \<and>
           same_params fh fh' \<and>
           (bit_in_page fh rid \<and> slot_in_page fh rid \<and> buf_in_range (file_hdr fh) buf \<longrightarrow>
              res \<noteq> Inl MemoryFault)"
proof (cases "fetch_page_handle fh (page_no rid)")
  case (Inl e)
  from fetch_page_handle_Inl [OF Inl] Inl inv show ?thesis
    by (auto simp: insert_record_at_def)
next
  case (Inr pg)
  let ?p = "page_no rid" and ?s = "slot_no rid" and ?hdr = "file_hdr fh"
  let ?n = "num_records_per_page ?hdr"
  from fetch_page_at [OF Inr] have p: "1 \<le> ?p" "?p \<le> int (length (pages fh))"
    and pg: "pg = page_at (pages fh) ?p" by simp_all
  note lay = rm_inv_layout [OF inv]
  from layout_ok_page [OF lay p] pg have len: "length (data pg) = page_bytes fh" by simp
  note ip = in_page_layout [OF lay len, of rid]
  show ?thesis
  proof (cases "Bitmap_in_range (data pg) ?s \<and> \<not> Bitmap_is_set (data pg) ?s \<and>
                  slot_in_range ?hdr pg ?s \<and> buf_in_range ?hdr buf")
    case False
    with ip inv Inr show ?thesis
      by (auto simp: insert_record_at_def Let_def)
  next
    case True
    then have ir: "Bitmap_in_range (data pg) ?s" and ns: "\<not> Bitmap_is_set (data pg) ?s"
      and sr: "slot_in_range ?hdr pg ?s" and br: "buf_in_range ?hdr buf"
      by simp_all
    note np = layout_ok_hdr(7) [OF lay]
    let ?w = "write_page ?hdr pg ?s buf"
    let ?fh1 = "put_page fh ?p ?w"
    from len length_write_page [OF sr br] have lw: "length (data ?w) = page_bytes fh" by simp
    have unf: "insert_record_at fh rid buf =
      (if num_records ?w = ?n then
         (if first_free_page_no ?hdr = ?p
          then Some (Inr (),
                 (put_page ?fh1 ?p (?w\<lparr>next_free_page_no := RM_NO_PAGE\<rparr>))
                   \<lparr>file_hdr := ?hdr\<lparr>first_free_page_no := next_free_page_no ?w\<rparr>\<rparr>)
          else
            (case unlink_loop ?fh1 ?p (next_free_page_no ?w) (first_free_page_no ?hdr) of
               None \<Rightarrow> None
             | Some (Inl e, fh2) \<Rightarrow> Some (Inl e, fh2)
             | Some (Inr u, fh2) \<Rightarrow>
                 Some (Inr (), put_page fh2 ?p (?w\<lparr>next_free_page_no := RM_NO_PAGE\<rparr>))))
       else Some (Inr (), ?fh1))"
      using Inr True
      by (auto simp: insert_record_at_def Let_def write_page_def
          split: option.splits prod.splits sum.splits)
    show ?thesis
    proof (cases "num_records ?w = ?n")
      case False
      then have "(num_records ?w < ?n) = (num_records pg < ?n)" by auto
      with rm_inv_put_stay [OF inv p lw] pg have "rm_inv ?fh1 ps" by simp
      with unf False show ?thesis by auto
    next
      case full: True
      then have "num_records pg < ?n" by simp
      with rm_inv_member [OF inv p] pg have mem: "?p \<in> set ps" by simp
      from rm_inv_fl_ok [OF inv] have path:
        "fl_path (nxt (pages fh)) (length (pages fh)) (first_free_page_no ?hdr) ps"
        and d: "distinct ps" by (simp_all add: fl_ok_def)
      show ?thesis
      proof (cases "first_free_page_no ?hdr = ?p")
        case True
        from mem path True obtain ys where ps: "ps = ?p # ys" by (cases ps) auto
        from rm_inv_remove_head [OF inv [unfolded ps] lw full] pg
        have "rm_inv ((put_page ?fh1 ?p (?w\<lparr>next_free_page_no := RM_NO_PAGE\<rparr>))
                   \<lparr>file_hdr := ?hdr\<lparr>first_free_page_no := next_free_page_no ?w\<rparr>\<rparr>) ys"
          by (simp add: nxt_def)
        with unf full True show ?thesis by (auto simp: same_params_def)
      next
        case False
        from mem obtain xs' ys where ps': "ps = xs' @ ?p # ys" by (auto simp: in_set_conv_decomp)
        with path False have "xs' \<noteq> []" by (cases xs') auto
        then obtain xs q where "xs' = xs @ [q]" by (cases xs' rule: rev_cases) auto
        with ps' have ps: "ps = xs @ q # ?p # ys" by simp
        from d ps have qp: "q \<noteq> ?p" by auto
        from fl_path_range [OF path, of q] ps have q: "1 \<le> q" "q \<le> int (length (pages fh))"
          by simp_all
        have nx1: "\<forall>r \<in> set ps. nxt (pages ?fh1) r = nxt (pages fh) r"
        proof
          fix r assume "r \<in> set ps"
          from fl_path_range [OF path this] p pg show "nxt (pages ?fh1) r = nxt (pages fh) r"
            by (simp add: nxt_def page_at_put_page)
        qed
        from fl_path_cong [OF path nx1] have path1:
          "fl_path (nxt (pages ?fh1)) (length (pages ?fh1)) (first_free_page_no ?hdr)
             (xs @ q # ?p # ys)"
          by (simp add: ps)
        have np1: "num_pages (file_hdr ?fh1) = int (length (pages ?fh1)) + 1"
          using np by simp
        have q1: "page_at (pages ?fh1) q = page_at (pages fh) q"
          using p q qp by (simp add: page_at_put_page)
        let ?qpg = "(page_at (pages fh) q)\<lparr>next_free_page_no := nxt (pages fh) ?p\<rparr>"
        have nxp: "nxt (pages fh) ?p = next_free_page_no ?w"
          by (simp add: nxt_def pg)
        have ul: "unlink_loop ?fh1 ?p (next_free_page_no ?w) (first_free_page_no ?hdr) =
                    Some (Inr (), put_page ?fh1 q ?qpg)"
          unfolding nxp q1 [symmetric]
          by (rule unlink_loop_finds [OF path1 d [unfolded ps] np1])
        let ?fh' = "put_page (put_page fh q ?qpg) ?p (?w\<lparr>next_free_page_no := RM_NO_PAGE\<rparr>)"
        from unf full False ul have res: "insert_record_at fh rid buf = Some (Inr (), ?fh')"
          by (simp add: put_page_absorb)
        from rm_inv_remove_mid [OF inv [unfolded ps] lw full refl]
        have "rm_inv ?fh' (xs @ q # ys)" .
        with res show ?thesis by auto
      qed
    qed
  qed
qed

lemma map_sum_Inl_iff: "map_sum id f res = Inl e \<longleftrightarrow> res = Inl e"
  by (cases res) auto

lemma rm_step_inv:
  assumes "rm_inv fh ps"
  shows "\<exists>res fh' ps'. rm_step fh c = Some (res, fh') \<and> rm_inv fh' ps' \<and>
           same_params fh fh' \<and> (call_in_page fh c \<longrightarrow> res \<noteq> Inl MemoryFault)"
proof (cases c)
  case (Get_record r)
  have "call_in_page fh c \<longrightarrow> get_record fh r \<noteq> Inl MemoryFault"
  proof (cases "fetch_page_handle fh (page_no r)")
    case (Inl e)
    from fetch_page_handle_Inl [OF Inl] Inl show ?thesis by (simp add: get_record_def)
  next
    case (Inr pg)
    from fetch_page_at [OF Inr] layout_ok_page [OF rm_inv_layout [OF assms]]
    have len: "length (data pg) = page_bytes fh" by simp
    from in_page_layout [OF rm_inv_layout [OF assms] len, of r] Inr Get_record show ?thesis
      by (auto simp: get_record_def)
  qed
  with assms Get_record show ?thesis
    by (auto simp: rm_step_def map_sum_Inl_iff)
next
  case (Insert_record buf)
  from insert_record_inv [OF assms, of buf] Insert_record show ?thesis
    by (auto simp: rm_step_def map_sum_Inl_iff)
next
  case (Insert_record_at r buf)
  from insert_record_at_inv [OF assms, of r buf] Insert_record_at show ?thesis
    by (auto simp: rm_step_def map_sum_Inl_iff)
next
  case (Delete_record r)
  from delete_record_inv [OF assms, of r] Delete_record show ?thesis
    by (auto simp: rm_step_def map_sum_Inl_iff)
next
  case (Update_record r buf)
  from update_record_inv [OF assms, of r buf] Update_record show ?thesis
    by (auto simp: rm_step_def map_sum_Inl_iff)
qed


section \<open>Record manager: what a call does to the pages\<close>

lemma cores_put_page: "cores (put_page fh p pg) = (cores fh)[nat (p - 1) := page_core pg]"
  by (simp add: cores_def put_page_def map_update)

lemma cores_hdr_update [simp]: "cores (fh\<lparr>file_hdr := h\<rparr>) = cores fh"
  by (simp add: cores_def)

lemma page_core_next [simp]: "page_core (pg\<lparr>next_free_page_no := x\<rparr>) = page_core pg"
  by (simp add: page_core_def)

lemma length_cores [simp]: "length (cores fh) = length (pages fh)"
  by (simp add: cores_def)

lemma cores_nth: "i < length (pages fh) \<Longrightarrow> cores fh ! i = page_core (pages fh ! i)"
  by (simp add: cores_def)

lemma cores_put_same:
  assumes "fetch_page_handle fh q = Inr pg" and "page_core pg' = page_core pg"
  shows "cores (put_page fh q pg') = cores fh"
proof -
  from assms(1) have q: "nat (q - 1) < length (pages fh)" and pg: "pg = pages fh ! nat (q - 1)"
    by (auto simp: fetch_page_handle_Inr)
  from q pg assms(2) have "(cores fh)[nat (q - 1) := page_core pg'] = cores fh"
    by (simp add: list_update_same_conv cores_nth)
  then show ?thesis by (simp add: cores_put_page)
qed

lemma cores_unlink_loop:
  assumes "unlink_loop fh t tn prev = Some (res, fh')"
  shows "cores fh' = cores fh"
  using unlink_loop_shape [OF assms]
  by (auto simp: cores_put_same)

lemma page_record_data:
  "data pg' = data pg \<Longrightarrow> page_record hdr pg' r = page_record hdr pg r"
  by (simp add: page_record_def slot_in_range_def get_slot_def)

lemma page_record_core:
  "page_core pg' = page_core pg \<Longrightarrow> page_record hdr pg' r = page_record hdr pg r"
  by (rule page_record_data) (simp add: page_core_def)

text \<open>\<open>get_record\<close> when one page has changed.\<close>

lemma get_record_cores:
  assumes c: "cores fh' = (cores fh)[nat (p - 1) := page_core pg']"
    and f: "fetch_page_handle fh p = Inr pg"
    and np: "num_pages (file_hdr fh') = num_pages (file_hdr fh)"
    and sp: "same_params fh fh'"
  shows "get_record fh' r =
           (if page_no r = p then page_record (file_hdr fh) pg' r else get_record fh r)"
proof -
  from c have len: "length (pages fh') = length (pages fh)"
    by (metis length_cores length_list_update)
  from sp have hc: "\<And>pg. page_record (file_hdr fh') pg r = page_record (file_hdr fh) pg r"
    by (intro page_record_hdr_cong) (simp_all add: same_params_def)
  from f have b: "1 \<le> p" "p < num_pages (file_hdr fh)" "p \<le> int (length (pages fh))"
    by (simp_all add: fetch_page_handle_Inr)
  show ?thesis
  proof (cases "fetch_page_handle fh (page_no r)")
    case (Inl e)
    with f have ne: "page_no r \<noteq> p" by auto
    from Inl len np have "fetch_page_handle fh' (page_no r) = Inl e"
      by (simp add: fetch_page_handle_def fetch_page_def split: if_splits)
    with Inl ne show ?thesis by (simp add: get_record_page_record)
  next
    case (Inr pq)
    then have q: "1 \<le> page_no r" "page_no r < num_pages (file_hdr fh)"
      "page_no r \<le> int (length (pages fh))" and pq: "pq = pages fh ! nat (page_no r - 1)"
      by (simp_all add: fetch_page_handle_Inr)
    let ?i = "nat (page_no r - 1)"
    from q have i: "?i < length (pages fh)" by simp
    from q len np have f': "fetch_page_handle fh' (page_no r) = Inr (pages fh' ! ?i)"
      by (simp add: fetch_page_handle_Inr)
    from i len have "page_core (pages fh' ! ?i) = cores fh' ! ?i" by (simp add: cores_nth)
    also have "\<dots> = (if page_no r = p then page_core pg' else page_core pq)"
      using i q b by (auto simp: c nth_list_update cores_nth pq)
    finally have "page_record (file_hdr fh) (pages fh' ! ?i) r =
        (if page_no r = p then page_record (file_hdr fh) pg' r else page_record (file_hdr fh) pq r)"
      by (auto intro: page_record_core)
    with f' Inr show ?thesis by (simp add: get_record_page_record hc)
  qed
qed

lemma get_record_cores_same:
  assumes c: "cores fh' = cores fh"
    and np: "num_pages (file_hdr fh') = num_pages (file_hdr fh)"
    and sp: "same_params fh fh'"
  shows "get_record fh' r = get_record fh r"
proof (cases "fetch_page_handle fh (page_no r)")
  case (Inl e)
  from c have len: "length (pages fh') = length (pages fh)" by (metis length_cores)
  from Inl len np have "fetch_page_handle fh' (page_no r) = Inl e"
    by (simp add: fetch_page_handle_def fetch_page_def split: if_splits)
  with Inl show ?thesis by (simp add: get_record_page_record)
next
  case (Inr pq)
  from Inr have i: "nat (page_no r - 1) < length (pages fh)"
    and pq: "pq = pages fh ! nat (page_no r - 1)"
    by (auto simp: fetch_page_handle_Inr)
  have "(cores fh)[nat (page_no r - 1) := page_core pq] = cores fh"
    using i pq by (simp add: list_update_same_conv cores_nth)
  with c have "cores fh' = (cores fh)[nat (page_no r - 1) := page_core pq]" by simp
  from get_record_cores [OF this Inr np sp, of r] Inr show ?thesis
    by (simp add: get_record_page_record)
qed

text \<open>What the calls do to the pages.\<close>

lemma delete_record_cases:
  assumes "delete_record fh rid = (res, fh')"
  shows "(fh' = fh \<and> (\<exists>e. res = Inl e)) \<or>
     (\<exists>pg. res = Inr () \<and> fetch_page_handle fh (page_no rid) = Inr pg \<and>
        Bitmap_in_range (data pg) (slot_no rid) \<and> Bitmap_is_set (data pg) (slot_no rid) \<and>
        same_params fh fh' \<and> num_pages (file_hdr fh') = num_pages (file_hdr fh) \<and>
        cores fh' = (cores fh)[nat (page_no rid - 1) :=
           page_core (pg\<lparr>data := Bitmap_reset (data pg) (slot_no rid),
                         num_records := num_records pg - 1\<rparr>)])"
proof (cases "fetch_page_handle fh (page_no rid)")
  case (Inl e)
  with assms show ?thesis by (auto simp: delete_record_def)
next
  case (Inr pg)
  show ?thesis
  proof (cases "Bitmap_in_range (data pg) (slot_no rid) \<and> Bitmap_is_set (data pg) (slot_no rid)")
    case False
    with assms Inr show ?thesis
      by (auto simp: delete_record_def Let_def split: if_splits)
  next
    case True
    with assms Inr show ?thesis
      by (auto simp: delete_record_def Let_def release_page_handle_def cores_put_page
          same_params_def page_core_def split: if_splits)
  qed
qed

lemma update_record_cases:
  assumes "update_record fh rid buf = (res, fh')"
  shows "(fh' = fh \<and> (\<exists>e. res = Inl e)) \<or>
     (\<exists>pg. res = Inr () \<and> fetch_page_handle fh (page_no rid) = Inr pg \<and>
        Bitmap_in_range (data pg) (slot_no rid) \<and> Bitmap_is_set (data pg) (slot_no rid) \<and>
        slot_in_range (file_hdr fh) pg (slot_no rid) \<and> buf_in_range (file_hdr fh) buf \<and>
        fh' = put_page fh (page_no rid) (memcpy_slot (file_hdr fh) pg (slot_no rid) buf))"
proof (cases "fetch_page_handle fh (page_no rid)")
  case (Inl e)
  with assms show ?thesis by (auto simp: update_record_def)
next
  case (Inr pg)
  with assms show ?thesis
    by (auto simp: update_record_def Let_def split: if_splits)
qed

lemma insert_record_at_cases:
  assumes "insert_record_at fh rid buf = Some (res, fh')"
  shows "(fh' = fh \<and> (\<exists>e. res = Inl e)) \<or>
     (\<exists>pg. fetch_page_handle fh (page_no rid) = Inr pg \<and>
        Bitmap_in_range (data pg) (slot_no rid) \<and> \<not> Bitmap_is_set (data pg) (slot_no rid) \<and>
        slot_in_range (file_hdr fh) pg (slot_no rid) \<and> buf_in_range (file_hdr fh) buf \<and>
        same_params fh fh' \<and> num_pages (file_hdr fh') = num_pages (file_hdr fh) \<and>
        cores fh' = (cores fh)[nat (page_no rid - 1) :=
           page_core (write_page (file_hdr fh) pg (slot_no rid) buf)])"
proof (cases "fetch_page_handle fh (page_no rid)")
  case (Inl e)
  with assms show ?thesis by (auto simp: insert_record_at_def)
next
  case (Inr pg)
  let ?p = "page_no rid" and ?s = "slot_no rid" and ?hdr = "file_hdr fh"
  let ?pg3 = "write_page ?hdr pg ?s buf"
  let ?fh1 = "put_page fh ?p ?pg3"
  show ?thesis
  proof (cases "Bitmap_in_range (data pg) ?s \<and> \<not> Bitmap_is_set (data pg) ?s \<and>
                  slot_in_range ?hdr pg ?s \<and> buf_in_range ?hdr buf")
    case False
    with assms Inr show ?thesis
      by (auto simp: insert_record_at_def Let_def split: if_splits)
  next
    case ok: True
    have f1: "fetch_page_handle ?fh1 ?p = Inr ?pg3"
      using Inr by (simp add: fetch_put_page fetch_page_handle_Inr)
    have c1: "cores ?fh1 = (cores fh)[nat (?p - 1) := page_core ?pg3]"
      by (rule cores_put_page)
    have "same_params fh fh' \<and> num_pages (file_hdr fh') = num_pages ?hdr \<and> cores fh' = cores ?fh1"
    proof (cases "num_records ?pg3 = num_records_per_page ?hdr")
      case nf: False
      with assms Inr ok have "fh' = ?fh1"
        by (simp add: insert_record_at_def Let_def write_page_def)
      then show ?thesis by simp
    next
      case full: True
      show ?thesis
      proof (cases "first_free_page_no ?hdr = ?p")
        case True
        with assms Inr ok full have "fh' = (put_page ?fh1 ?p (?pg3\<lparr>next_free_page_no := RM_NO_PAGE\<rparr>))
                          \<lparr>file_hdr := ?hdr\<lparr>first_free_page_no := next_free_page_no ?pg3\<rparr>\<rparr>"
          by (simp add: insert_record_at_def Let_def write_page_def)
        then show ?thesis
          by (simp add: same_params_def cores_put_page)
      next
        case False
        with assms Inr ok full obtain y where
          ul: "unlink_loop ?fh1 ?p (next_free_page_no ?pg3) (first_free_page_no ?hdr) = Some y"
          by (auto simp: insert_record_at_def Let_def write_page_def
              split: option.splits)
        obtain res2 fh2 where y: "y = (res2, fh2)" by (cases y) auto
        note ul' = ul [unfolded y]
        from fetch_unlink_loop [OF ul' f1] obtain pg' where
          f2: "fetch_page_handle fh2 ?p = Inr pg'" by blast
        have c2: "cores fh2 = cores ?fh1" by (rule cores_unlink_loop [OF ul'])
        have h2: "file_hdr fh2 = ?hdr"
          using file_hdr_unlink_loop [OF ul'] by simp
        have b2: "page_bytes fh2 = page_bytes fh"
          using unlink_loop_shape [OF ul] by (auto simp: y)
        from assms Inr ok full False ul y
        have "fh' = fh2 \<or> fh' = put_page fh2 ?p (?pg3\<lparr>next_free_page_no := RM_NO_PAGE\<rparr>)"
          by (auto simp: insert_record_at_def Let_def write_page_def
              split: sum.splits)
        then show ?thesis
        proof
          assume "fh' = fh2"
          with c2 h2 b2 show ?thesis by (simp add: same_params_def)
        next
          assume e: "fh' = put_page fh2 ?p (?pg3\<lparr>next_free_page_no := RM_NO_PAGE\<rparr>)"
          have "cores fh' = cores ?fh1"
            unfolding e by (simp add: cores_put_page c2)
          with h2 b2 e show ?thesis by (simp add: same_params_def)
        qed
      qed
    qed
    with Inr ok c1 show ?thesis by auto
  qed
qed

lemma nat_le_mono: "0 \<le> (x :: int) \<Longrightarrow> x \<le> y \<Longrightarrow> nat x \<le> nat y"
  by simp

text \<open>The bytes of a slot, in natural numbers.\<close>

lemma slot_bytes:
  fixes pg :: RmPage
  assumes lay: "layout_ok fh" and len: "length (data pg) = page_bytes fh"
    and ok: "slot_ok (file_hdr fh) r"
  shows "nat (bitmap_size (file_hdr fh)) \<le> nat (slot_offset (file_hdr fh) (slot_no r))"
    and "nat (slot_offset (file_hdr fh) (slot_no r)) + nat (record_size (file_hdr fh)) \<le>
           length (data pg)"
    and "nat (slot_no r div 8) < nat (slot_offset (file_hdr fh) (slot_no r))"
proof -
  note h = layout_ok_hdr [OF lay]
  note s = slot_ok_layout [OF lay len ok]
  from h(4) have b0: "0 \<le> bitmap_size (file_hdr fh)" by simp
  from nat_le_mono [OF b0 s(4)]
  show a: "nat (bitmap_size (file_hdr fh)) \<le> nat (slot_offset (file_hdr fh) (slot_no r))" .
  from slot_in_range_nat [OF s(2)]
  show "nat (slot_offset (file_hdr fh) (slot_no r)) + nat (record_size (file_hdr fh)) \<le>
           length (data pg)" .
  from s(3) a show "nat (slot_no r div 8) < nat (slot_offset (file_hdr fh) (slot_no r))"
    by linarith
qed








section \<open>Record manager: a call leaves the other records alone\<close>


lemma cores_insert_result:
  "cores (insert_result fh1 p pg s buf) =
     (cores fh1)[nat (p - 1) := page_core (write_page (file_hdr fh1) pg s buf)]"
  by (simp add: insert_result_write_page cores_put_page)

lemma num_pages_insert_result [simp]:
  "num_pages (file_hdr (insert_result fh1 p pg s buf)) = num_pages (file_hdr fh1)"
  by (simp add: insert_result_write_page)











lemma rm_wf_inv: "rm_wf fh \<Longrightarrow> \<exists>ps. rm_inv fh ps"
  by (auto simp: rm_wf_def rm_inv_def free_list_ok_iff)


section \<open>Record manager: the population count of the bitmap\<close>

lemma count_add:
  assumes "distinct xs" and "s \<in> set xs" and "\<not> p s"
    and "\<And>x. x \<in> set xs \<Longrightarrow> q x \<longleftrightarrow> (x = s \<or> p x)"
  shows "length (filter q xs) = Suc (length (filter p xs))"
proof -
  have "{x. q x} \<inter> set xs = insert s ({x. p x} \<inter> set xs)"
    using assms(2,4) by auto
  moreover have "s \<notin> {x. p x} \<inter> set xs" using assms(3) by simp
  ultimately have "card ({x. q x} \<inter> set xs) = Suc (card ({x. p x} \<inter> set xs))"
    by simp
  with assms(1) show ?thesis by (simp add: distinct_length_filter)
qed

lemma count_remove:
  assumes "distinct xs" and "s \<in> set xs" and "p s"
    and "\<And>x. x \<in> set xs \<Longrightarrow> q x \<longleftrightarrow> (x \<noteq> s \<and> p x)"
  shows "Suc (length (filter q xs)) = length (filter p xs)"
proof -
  have "length (filter p xs) = Suc (length (filter q xs))"
  proof (rule count_add [OF assms(1,2)])
    from assms(2,4) show "\<not> q s" by simp
  next
    fix x assume "x \<in> set xs"
    with assms(3,4) show "p x \<longleftrightarrow> (x = s \<or> q x)" by auto
  qed
  then show ?thesis by simp
qed

lemma distinct_bitmap_positions: "distinct (bitmap_positions hdr)"
  by (simp add: bitmap_positions_def distinct_map)

lemma mem_bitmap_positions:
  "i \<in> set (bitmap_positions hdr) \<longleftrightarrow> 0 \<le> i \<and> i < 8 * bitmap_size hdr"
proof
  assume "i \<in> set (bitmap_positions hdr)"
  then obtain k where "k < 8 * nat (bitmap_size hdr)" and "i = int k"
    by (auto simp: bitmap_positions_def)
  then show "0 \<le> i \<and> i < 8 * bitmap_size hdr" by auto
next
  assume a: "0 \<le> i \<and> i < 8 * bitmap_size hdr"
  then have "nat i < 8 * nat (bitmap_size hdr)" by auto
  then have "int (nat i) \<in> set (bitmap_positions hdr)"
    unfolding bitmap_positions_def by (simp del: int_nat_eq)
  with a show "i \<in> set (bitmap_positions hdr)" by simp
qed

lemma position_byte:
  assumes "i \<in> set (bitmap_positions hdr)"
  shows "nat (i div 8) < nat (bitmap_size hdr)"
proof -
  from assms have i: "0 \<le> i" "i < 8 * bitmap_size hdr" by (simp_all add: mem_bitmap_positions)
  from div8_less [OF i(2)] have "i div 8 < bitmap_size hdr" .
  moreover from i(1) have "0 \<le> i div 8" by (simp add: pos_imp_zdiv_nonneg_iff)
  ultimately show ?thesis by (simp add: nat_less_iff)
qed

lemma slot_ok_position:
  assumes "layout_ok fh" and "slot_ok (file_hdr fh) r"
  shows "slot_no r \<in> set (bitmap_positions (file_hdr fh))"
  using layout_ok_hdr(3) [OF assms(1)] assms(2)
  by (simp add: mem_bitmap_positions slot_ok_def)

lemma Bitmap_is_set_memcpy_position:
  fixes pg :: RmPage
  assumes lay: "layout_ok fh" and len: "length (data pg) = page_bytes fh"
    and ok: "slot_ok (file_hdr fh) r" and br: "buf_in_range (file_hdr fh) buf"
    and i: "i \<in> set (bitmap_positions (file_hdr fh))"
  shows "Bitmap_is_set (data (memcpy_slot (file_hdr fh) pg (slot_no r) buf)) i =
         Bitmap_is_set (data pg) i"
proof -
  note sb = slot_bytes [OF lay len ok]
  from position_byte [OF i] sb(1)
  have lt: "nat (i div 8) < nat (slot_offset (file_hdr fh) (slot_no r))"
    by (rule less_le_trans)
  from sb(2) have fit: "nat (slot_offset (file_hdr fh) (slot_no r)) +
      length (take (nat (record_size (file_hdr fh))) buf) \<le> length (data pg)"
    by (simp only: length_take_buf [OF br])
  show ?thesis
    unfolding data_memcpy_slot [OF br]
    by (rule Bitmap_is_set_write_bytes [OF fit]) (simp only: lt simp_thms)
qed

lemma popcount_memcpy_slot:
  fixes pg :: RmPage
  assumes lay: "layout_ok fh" and len: "length (data pg) = page_bytes fh"
    and ok: "slot_ok (file_hdr fh) r" and br: "buf_in_range (file_hdr fh) buf"
  shows "popcount (file_hdr fh) (memcpy_slot (file_hdr fh) pg (slot_no r) buf) =
         popcount (file_hdr fh) pg"
proof -
  have "filter (Bitmap_is_set (data (memcpy_slot (file_hdr fh) pg (slot_no r) buf)))
          (bitmap_positions (file_hdr fh)) =
        filter (Bitmap_is_set (data pg)) (bitmap_positions (file_hdr fh))"
    by (rule filter_cong [OF refl]) (rule Bitmap_is_set_memcpy_position [OF lay len ok br])
  then show ?thesis by (simp only: popcount_def)
qed

lemma popcount_write_page:
  fixes pg :: RmPage
  assumes lay: "layout_ok fh" and len: "length (data pg) = page_bytes fh"
    and ok: "slot_ok (file_hdr fh) r" and br: "buf_in_range (file_hdr fh) buf"
    and ns: "\<not> Bitmap_is_set (data pg) (slot_no r)"
  shows "popcount (file_hdr fh) (write_page (file_hdr fh) pg (slot_no r) buf) =
         popcount (file_hdr fh) pg + 1"
proof -
  let ?hdr = "file_hdr fh" and ?s = "slot_no r"
  define d1 where "d1 = data (memcpy_slot ?hdr pg ?s buf)"
  note sl = slot_ok_layout [OF lay len ok]
  have l1: "length d1 = length (data pg)"
    unfolding d1_def by (rule length_memcpy_slot [OF sl(2) br])
  with sl(1) have ir: "Bitmap_in_range d1 ?s" by (simp add: Bitmap_in_range_def)
  have same: "\<And>i. i \<in> set (bitmap_positions ?hdr) \<Longrightarrow>
      Bitmap_is_set d1 i = Bitmap_is_set (data pg) i"
    unfolding d1_def by (rule Bitmap_is_set_memcpy_position [OF lay len ok br])
  have "length (filter (Bitmap_is_set (Bitmap_set d1 ?s)) (bitmap_positions ?hdr)) =
        Suc (length (filter (Bitmap_is_set (data pg)) (bitmap_positions ?hdr)))"
  proof (rule count_add [where p = "Bitmap_is_set (data pg)",
        OF distinct_bitmap_positions slot_ok_position [OF lay ok] ns])
    fix i assume i: "i \<in> set (bitmap_positions ?hdr)"
    then have "0 \<le> i" by (simp add: mem_bitmap_positions)
    from Bitmap_is_set_set [OF ir this] same [OF i]
    show "Bitmap_is_set (Bitmap_set d1 ?s) i \<longleftrightarrow> (i = ?s \<or> Bitmap_is_set (data pg) i)"
      by simp
  qed
  then show ?thesis by (simp add: popcount_def write_page_eq d1_def)
qed

lemma popcount_reset:
  fixes pg :: RmPage
  assumes lay: "layout_ok fh" and len: "length (data pg) = page_bytes fh"
    and ok: "slot_ok (file_hdr fh) r"
    and st: "Bitmap_is_set (data pg) (slot_no r)"
  shows "popcount (file_hdr fh) (pg\<lparr>data := Bitmap_reset (data pg) (slot_no r), num_records := k\<rparr>) =
         popcount (file_hdr fh) pg - 1"
proof -
  let ?hdr = "file_hdr fh" and ?s = "slot_no r"
  note sl = slot_ok_layout [OF lay len ok]
  have "Suc (length (filter (Bitmap_is_set (Bitmap_reset (data pg) ?s)) (bitmap_positions ?hdr))) =
        length (filter (Bitmap_is_set (data pg)) (bitmap_positions ?hdr))"
  proof (rule count_remove [where p = "Bitmap_is_set (data pg)",
        OF distinct_bitmap_positions slot_ok_position [OF lay ok] st])
    fix i assume i: "i \<in> set (bitmap_positions ?hdr)"
    then have "0 \<le> i" by (simp add: mem_bitmap_positions)
    from Bitmap_is_set_reset [OF sl(1) this]
    show "Bitmap_is_set (Bitmap_reset (data pg) ?s) i \<longleftrightarrow> (i \<noteq> ?s \<and> Bitmap_is_set (data pg) i)" .
  qed
  then show ?thesis by (simp add: popcount_def)
qed

lemma popcount_fresh_page:
  assumes lay: "layout_ok fh"
  shows "popcount (file_hdr fh) (fresh_page fh) = 0"
proof -
  have "\<And>i. i \<in> set (bitmap_positions (file_hdr fh)) \<Longrightarrow>
      \<not> Bitmap_is_set (data (fresh_page fh)) i"
  proof -
    fix i assume "i \<in> set (bitmap_positions (file_hdr fh))"
    from position_byte [OF this]
    show "\<not> Bitmap_is_set (data (fresh_page fh)) i"
      by (simp add: fresh_page_def Bitmap_init_def Bitmap_is_set_def get_bucket_def nth_append)
  qed
  then have "filter (Bitmap_is_set (data (fresh_page fh))) (bitmap_positions (file_hdr fh)) = []"
    by (simp add: filter_empty_conv)
  then show ?thesis by (simp add: popcount_def)
qed

lemma popcount_ok_iff:
  "popcount_ok fh \<longleftrightarrow>
     (\<forall>c \<in> set (cores fh).
        int (length (filter (Bitmap_is_set (fst c))
               (map int [0 ..< 8 * nat (bitmap_size (file_hdr fh))]))) = snd c)"
  by (simp add: popcount_ok_def popcount_def cores_def page_core_def bitmap_positions_def)

lemma popcount_ok_cores:
  assumes pc: "popcount_ok fh" and c: "cores fh' = (cores fh)[k := page_core pg']"
    and sp: "same_params fh fh'" and pg': "popcount (file_hdr fh) pg' = num_records pg'"
  shows "popcount_ok fh'"
proof -
  from sp have bs: "bitmap_size (file_hdr fh') = bitmap_size (file_hdr fh)"
    by (simp add: same_params_def)
  have "set ((cores fh)[k := page_core pg']) \<subseteq> insert (page_core pg') (set (cores fh))"
    by (rule set_update_subset_insert)
  moreover from pg' have "int (length (filter (Bitmap_is_set (fst (page_core pg')))
               (map int [0 ..< 8 * nat (bitmap_size (file_hdr fh))]))) = snd (page_core pg')"
    by (simp add: popcount_def page_core_def bitmap_positions_def)
  ultimately show ?thesis
    using pc unfolding popcount_ok_iff c bs by blast
qed

lemma popcount_ok_fetch:
  assumes "popcount_ok fh" and "fetch_page_handle fh p = Inr pg"
  shows "popcount (file_hdr fh) pg = num_records pg"
proof -
  from assms(2) have "nat (p - 1) < length (pages fh)" and "pg = pages fh ! nat (p - 1)"
    by (auto simp: fetch_page_handle_Inr)
  then have "pg \<in> set (pages fh)" by simp
  with assms(1) show ?thesis by (simp add: popcount_ok_def)
qed

lemma popcount_ok_add_page:
  assumes "layout_ok fh" and "popcount_ok fh"
  shows "popcount_ok (add_page fh)"
proof -
  have "\<And>pg. popcount (file_hdr (add_page fh)) pg = popcount (file_hdr fh) pg"
    by (simp add: popcount_def bitmap_positions_def add_page_def)
  with assms(2) popcount_fresh_page [OF assms(1)] show ?thesis
    by (auto simp: popcount_ok_def add_page_def fresh_page_def)
qed

lemma insert_record_popcount:
  assumes inv: "rm_inv fh ps" and pc: "popcount_ok fh"
    and br: "buf_in_range (file_hdr fh) buf"
    and ins: "insert_record fh buf = (res, fh')"
  shows "popcount_ok fh'"
proof -
  from create_page_handle_inv [OF inv] obtain pno ys fh1 where
    cr: "create_page_handle fh = (Inr (pno, page_at (pages fh1) pno), fh1)" and
    inv1: "rm_inv fh1 (pno # ys)" and sp: "same_params fh fh1" and
    alt: "fh1 = fh \<or> fh1 = add_page fh"
    by (cases ps) auto
  from alt pc popcount_ok_add_page [OF rm_inv_layout [OF inv] pc]
  have pc1: "popcount_ok fh1" by auto
  show ?thesis
  proof (cases res)
    case (Inl e)
    with ins cr have "fh' = fh1"
      by (auto simp: insert_record_def Let_def split: sum.splits option.splits if_splits prod.splits)
    with pc1 show ?thesis by simp
  next
    case (Inr r')
    from insert_record_Inr [OF ins [unfolded Inr]] cr obtain sno where
      fb: "first_bit False (data (page_at (pages fh1) pno)) (num_records_per_page (file_hdr fh1)) = Some sno" and
      lt: "sno < num_records_per_page (file_hdr fh1)" and
      br1: "buf_in_range (file_hdr fh1) buf" and
      fh': "fh' = insert_result fh1 pno (page_at (pages fh1) pno) sno buf"
      by auto
    let ?hdr = "file_hdr fh1" and ?pg = "page_at (pages fh1) pno"
    from create_page_handle_props [OF cr] have fe: "fetch_page_handle fh1 pno = Inr ?pg" by simp
    from next_bit_Some [OF fb [unfolded first_bit_def] lt] have
      s0: "-1 < sno" and ns: "\<not> Bitmap_is_set (data ?pg) sno"
      by simp_all
    from s0 lt have ok: "slot_ok ?hdr (Rid pno sno)" by (simp add: slot_ok_def)
    note lay = rm_inv_layout [OF inv1]
    from fetch_page_at [OF fe] layout_ok_page [OF lay]
    have len: "length (data ?pg) = page_bytes fh1" by simp
    from popcount_write_page [OF lay len ok br1] ns popcount_ok_fetch [OF pc1 fe]
    have "popcount ?hdr (write_page ?hdr ?pg sno buf) = num_records (write_page ?hdr ?pg sno buf)"
      by simp
    from popcount_ok_cores [OF pc1 cores_insert_result _ this] show ?thesis
      unfolding fh' by simp
  qed
qed

lemma insert_record_at_popcount:
  assumes inv: "rm_inv fh ps" and pc: "popcount_ok fh"
    and ok: "slot_ok (file_hdr fh) rid"
    and ins: "insert_record_at fh rid buf = Some (res, fh')"
  shows "popcount_ok fh'"
  using insert_record_at_cases [OF ins]
proof (elim disjE exE conjE)
  assume "fh' = fh"
  with pc show ?thesis by simp
next
  fix pg
  assume f: "fetch_page_handle fh (page_no rid) = Inr pg"
    and ns: "\<not> Bitmap_is_set (data pg) (slot_no rid)"
    and br: "buf_in_range (file_hdr fh) buf"
    and sp: "same_params fh fh'"
    and c: "cores fh' = (cores fh)[nat (page_no rid - 1) :=
           page_core (write_page (file_hdr fh) pg (slot_no rid) buf)]"
  note lay = rm_inv_layout [OF inv]
  from fetch_page_at [OF f] layout_ok_page [OF lay]
  have len: "length (data pg) = page_bytes fh" by simp
  from popcount_write_page [OF lay len ok br ns] popcount_ok_fetch [OF pc f]
  have "popcount (file_hdr fh) (write_page (file_hdr fh) pg (slot_no rid) buf) =
        num_records (write_page (file_hdr fh) pg (slot_no rid) buf)"
    by simp
  from popcount_ok_cores [OF pc c sp this] show ?thesis .
qed

lemma delete_record_popcount:
  assumes inv: "rm_inv fh ps" and pc: "popcount_ok fh"
    and ok: "slot_ok (file_hdr fh) rid"
    and del: "delete_record fh rid = (res, fh')"
  shows "popcount_ok fh'"
  using delete_record_cases [OF del]
proof (elim disjE exE conjE)
  assume "fh' = fh"
  with pc show ?thesis by simp
next
  fix pg
  assume f: "fetch_page_handle fh (page_no rid) = Inr pg"
    and st: "Bitmap_is_set (data pg) (slot_no rid)"
    and sp: "same_params fh fh'"
    and c: "cores fh' = (cores fh)[nat (page_no rid - 1) :=
           page_core (pg\<lparr>data := Bitmap_reset (data pg) (slot_no rid),
                         num_records := num_records pg - 1\<rparr>)]"
  note lay = rm_inv_layout [OF inv]
  from fetch_page_at [OF f] layout_ok_page [OF lay]
  have len: "length (data pg) = page_bytes fh" by simp
  from popcount_reset [OF lay len ok st, of "num_records pg - 1"] popcount_ok_fetch [OF pc f]
  have "popcount (file_hdr fh) (pg\<lparr>data := Bitmap_reset (data pg) (slot_no rid),
                         num_records := num_records pg - 1\<rparr>) =
        num_records (pg\<lparr>data := Bitmap_reset (data pg) (slot_no rid),
                         num_records := num_records pg - 1\<rparr>)"
    by simp
  from popcount_ok_cores [OF pc c sp this] show ?thesis .
qed

lemma update_record_popcount:
  assumes inv: "rm_inv fh ps" and pc: "popcount_ok fh"
    and ok: "slot_ok (file_hdr fh) rid"
    and upd: "update_record fh rid buf = (res, fh')"
  shows "popcount_ok fh'"
  using update_record_cases [OF upd]
proof (elim disjE exE conjE)
  assume "fh' = fh"
  with pc show ?thesis by simp
next
  fix pg
  assume f: "fetch_page_handle fh (page_no rid) = Inr pg"
    and br: "buf_in_range (file_hdr fh) buf"
    and e: "fh' = put_page fh (page_no rid) (memcpy_slot (file_hdr fh) pg (slot_no rid) buf)"
  note lay = rm_inv_layout [OF inv]
  from fetch_page_at [OF f] layout_ok_page [OF lay]
  have len: "length (data pg) = page_bytes fh" by simp
  from popcount_memcpy_slot [OF lay len ok br] popcount_ok_fetch [OF pc f]
  have "popcount (file_hdr fh) (memcpy_slot (file_hdr fh) pg (slot_no rid) buf) =
        num_records (memcpy_slot (file_hdr fh) pg (slot_no rid) buf)"
    by simp
  from popcount_ok_cores [OF pc _ _ this, of fh' "nat (page_no rid - 1)"] show ?thesis
    by (simp add: e cores_put_page)
qed

lemma rm_step_popcount:
  assumes inv: "rm_inv fh ps" and pc: "popcount_ok fh"
    and cok: "call_ok (file_hdr fh) c"
    and st: "rm_step fh c = Some (res, fh')"
  shows "popcount_ok fh'"
proof (cases c)
  case (Get_record x)
  with st pc show ?thesis by (simp add: rm_step_def)
next
  case (Insert_record buf)
  with st obtain res0 where i: "insert_record fh buf = (res0, fh')"
    by (auto simp: rm_step_def split: prod.splits)
  from Insert_record cok have "buf_in_range (file_hdr fh) buf" by simp
  from insert_record_popcount [OF inv pc this i] show ?thesis .
next
  case (Insert_record_at x buf)
  with st obtain res0 where i: "insert_record_at fh x buf = Some (res0, fh')"
    by (auto simp: rm_step_def split: prod.splits option.splits)
  from Insert_record_at cok have "slot_ok (file_hdr fh) x" by simp
  from insert_record_at_popcount [OF inv pc this i] show ?thesis .
next
  case (Delete_record x)
  with st obtain res0 where dl: "delete_record fh x = (res0, fh')"
    by (auto simp: rm_step_def split: prod.splits)
  from Delete_record cok have "slot_ok (file_hdr fh) x" by simp
  from delete_record_popcount [OF inv pc this dl] show ?thesis .
next
  case (Update_record x buf)
  with st obtain res0 where up: "update_record fh x buf = (res0, fh')"
    by (auto simp: rm_step_def split: prod.splits)
  from Update_record cok have "slot_ok (file_hdr fh) x" by simp
  from update_record_popcount [OF inv pc this up] show ?thesis .
qed

lemma same_params_call_in_page_all:
  "same_params fh fh' \<Longrightarrow> call_in_page fh' c = call_in_page fh c"
  by (rule same_params_call_in_page)

lemma rm_run_popcount:
  assumes "rm_inv fh ps" and "popcount_ok fh"
    and "\<forall>c \<in> set cs. call_ok (file_hdr fh) c"
  shows "\<exists>rs fh'. rm_run fh cs = Some (rs, fh') \<and> popcount_ok fh' \<and>
           ((\<forall>c \<in> set cs. call_in_page fh c) \<longrightarrow> Inl MemoryFault \<notin> set rs)"
  using assms
proof (induction cs arbitrary: fh ps)
  case Nil
  then show ?case by simp
next
  case (Cons c cs)
  from rm_step_inv [OF Cons.prems(1), of c] obtain res fh1 ps1 where
    st: "rm_step fh c = Some (res, fh1)" and inv1: "rm_inv fh1 ps1"
    and sp: "same_params fh fh1" and nf: "call_in_page fh c \<longrightarrow> res \<noteq> Inl MemoryFault"
    by blast
  from Cons.prems(3) have c: "call_ok (file_hdr fh) c"
    and rest: "\<forall>c \<in> set cs. call_ok (file_hdr fh) c" by simp_all
  from rm_step_popcount [OF Cons.prems(1,2) c st] have pc1: "popcount_ok fh1" .
  from rest same_params_call_ok [OF sp] have ok1: "\<forall>c \<in> set cs. call_ok (file_hdr fh1) c"
    by simp
  from Cons.IH [OF inv1 pc1 ok1] obtain rs fh' where
    run: "rm_run fh1 cs = Some (rs, fh')" and pc': "popcount_ok fh'"
    and nf': "(\<forall>c \<in> set cs. call_in_page fh1 c) \<longrightarrow> Inl MemoryFault \<notin> set rs"
    by blast
  from nf nf' same_params_call_in_page [OF sp]
  have "(\<forall>c' \<in> set (c # cs). call_in_page fh c') \<longrightarrow> Inl MemoryFault \<notin> set (res # rs)"
    by auto
  with st run pc' show ?case by auto
qed

section \<open>Record manager and scan: the claims\<close>

text \<open>
  Claim C10. A call of \<open>next\<close> on a scan that is in the end state, over a file with at
  least one data page, raises \<open>PageNotExist\<close> for page \<open>RM_NO_PAGE\<close>: the search starts
  again at the page number the scan holds, which fails the bounds check of
  \<open>fetch_page_handle\<close>.
\<close>

theorem next_at_end_raises:
  assumes "is_end r" and "num_pages (file_hdr fh) > RM_FIRST_RECORD_PAGE"
  shows "RmScan_next fh r = Inl (PageNotExistError RM_NO_PAGE)"
proof -
  from assms(1) have p: "page_no r = RM_NO_PAGE" by (simp add: is_end_def)
  have lt: "RM_NO_PAGE < num_pages (file_hdr fh)"
    using assms(2) by (simp add: RM_NO_PAGE_def RM_FIRST_RECORD_PAGE_def)
  have f: "fetch_page_handle fh RM_NO_PAGE = Inl (PageNotExistError RM_NO_PAGE)"
    by (simp add: fetch_page_handle_def RM_NO_PAGE_def RM_FIRST_RECORD_PAGE_def)
  have "scan_loop fh RM_NO_PAGE (slot_no r) RM_NO_PAGE = Inl (PageNotExistError RM_NO_PAGE)"
    by (subst scan_loop.simps) (simp add: lt f)
  with assms(2) p show ?thesis by (simp add: RmScan_next_def)
qed

theorem next_at_end_raises_witness:
  "is_end (Rid (-1) (-1)) \<and> num_pages (file_hdr fh_one) > RM_FIRST_RECORD_PAGE \<and>
   RmScan_next fh_one (Rid (-1) (-1)) = Inl (PageNotExistError (-1))"
  using next_at_end_raises [of "Rid (-1) (-1)" fh_one]
  by (simp add: is_end_def RM_NO_PAGE_def RM_FIRST_RECORD_PAGE_def fh_one_def)

text \<open>
  Claim C9. Whenever \<open>insert_record(buf)\<close> returns a record id, deleting that record
  succeeds, and inserting \<open>buf\<close> again returns the same record id and leaves the file
  exactly as it was after the first insert (header, free list, record counts, bitmaps and
  slots).
\<close>

theorem insert_delete_insert:
  assumes "insert_record fh buf = (Inr r, fh')"
  shows "\<exists>fh2. delete_record fh' r = (Inr (), fh2) \<and> insert_record fh2 buf = (Inr r, fh')"
proof -
  from insert_record_Inr [OF assms] obtain pno pg fh1 sno where
    cr: "create_page_handle fh = (Inr (pno, pg), fh1)" and
    fb: "first_bit False (data pg) (num_records_per_page (file_hdr fh1)) = Some sno" and
    lt: "sno < num_records_per_page (file_hdr fh1)" and
    sr: "slot_in_range (file_hdr fh1) pg sno" and br: "buf_in_range (file_hdr fh1) buf" and
    r: "r = Rid pno sno" and fh': "fh' = insert_result fh1 pno pg sno buf"
    by blast
  let ?hdr = "file_hdr fh1"
  let ?n = "num_records_per_page ?hdr"
  from create_page_handle_props [OF cr] have
    fe: "fetch_page_handle fh1 pno = Inr pg" and ff: "first_free_page_no ?hdr = pno"
    by simp_all
  from fe have pn: "1 \<le> pno" "pno < num_pages ?hdr" "pno \<le> int (length (pages fh1))"
    and pg: "pg = pages fh1 ! nat (pno - 1)"
    by (simp_all add: fetch_page_handle_Inr)
  from next_bit_Some [OF fb [unfolded first_bit_def] lt] have
    s0: "-1 < sno" and
    ir: "Bitmap_in_range (data pg) sno" and ns: "\<not> Bitmap_is_set (data pg) sno" and
    before: "\<forall>j. -1 < j \<and> j < sno \<longrightarrow> Bitmap_in_range (data pg) j \<and> Bitmap_is_set (data pg) j"
    by simp_all
  define d1 where "d1 = data (memcpy_slot ?hdr pg sno buf)"
  have l1: "length d1 = length (data pg)"
    unfolding d1_def by (rule length_memcpy_slot [OF sr br])
  with ir have ir1: "Bitmap_in_range d1 sno" by (simp add: Bitmap_in_range_def)
  have w: "write_page ?hdr pg sno buf =
             pg\<lparr>data := Bitmap_set d1 sno, num_records := num_records pg + 1\<rparr>"
    by (simp add: write_page_eq d1_def)
  from ir1 s0 have st: "Bitmap_is_set (Bitmap_set d1 sno) sno"
    by (simp add: Bitmap_is_set_set)
  let ?pgd = "pg\<lparr>data := Bitmap_reset (Bitmap_set d1 sno) sno\<rparr>"
  let ?fh2 = "put_page fh1 pno ?pgd"
  have del: "delete_record fh' r = (Inr (), ?fh2)"
  proof (cases "num_records pg + 1 = ?n")
    case True
    then have fh'': "fh' = (put_page fh1 pno
        (pg\<lparr>data := Bitmap_set d1 sno,
           num_records := num_records pg + 1, next_free_page_no := RM_NO_PAGE\<rparr>))
        \<lparr>file_hdr := ?hdr\<lparr>first_free_page_no := next_free_page_no pg\<rparr>\<rparr>"
      by (simp add: fh' insert_result_def Let_def w)
    have "put_page fh1 pno (pg\<lparr>data := Bitmap_reset (Bitmap_set d1 sno) sno,
             next_free_page_no := next_free_page_no pg\<rparr>)\<lparr>file_hdr := ?hdr\<lparr>first_free_page_no := pno\<rparr>\<rparr> = ?fh2"
      using ff by (simp add: put_page_def)
    moreover from True have "?n = num_records pg + 1" by simp
    ultimately show ?thesis
      using pn ir1 st
      by (simp add: delete_record_def r fh'' fetch_hdr_update fetch_put_page
          release_page_handle_def Let_def)
        (simp add: put_page_def)
  next
    case False
    then have fh'': "fh' = put_page fh1 pno
        (pg\<lparr>data := Bitmap_set d1 sno, num_records := num_records pg + 1\<rparr>)"
      by (simp add: fh' insert_result_def Let_def w)
    show ?thesis
      using False pn ir1 st
      by (simp add: delete_record_def r fh'' fetch_put_page Let_def)
  qed
  have fe2: "fetch_page_handle ?fh2 pno = Inr ?pgd"
    using pn by (simp add: fetch_put_page)
  have ff2: "first_free_page_no (file_hdr ?fh2) = pno"
    using ff by simp
  have cr2: "create_page_handle ?fh2 = (Inr (pno, ?pgd), ?fh2)"
    by (rule create_page_handle_again [OF fe2 ff2])
  have bits: "\<forall>j. -1 < j \<and> j \<le> sno \<longrightarrow>
      Bitmap_in_range (data ?pgd) j \<and> Bitmap_is_set (data ?pgd) j = Bitmap_is_set (data pg) j"
  proof (intro allI impI)
    fix j assume j: "-1 < j \<and> j \<le> sno"
    then have j0: "0 \<le> j" by simp
    from j ir l1 have rj: "Bitmap_in_range (data ?pgd) j"
      by (simp add: Bitmap_in_range_iff)
    have "Bitmap_is_set (data ?pgd) j = Bitmap_is_set (data pg) j"
    proof (cases "j = sno")
      case True
      with ir1 ns s0 show ?thesis by (simp add: Bitmap_is_set_reset)
    next
      case False
      with j have js: "j < sno" by simp
      from False ir1 j0 have "Bitmap_is_set (data ?pgd) j = Bitmap_is_set d1 j"
        by (simp add: Bitmap_is_set_reset Bitmap_is_set_set)
      also have "\<dots> = Bitmap_is_set (data pg) j"
        unfolding d1_def by (rule Bitmap_is_set_memcpy_before [OF sr br j0 js])
      finally show ?thesis .
    qed
    with rj show "Bitmap_in_range (data ?pgd) j \<and>
        Bitmap_is_set (data ?pgd) j = Bitmap_is_set (data pg) j" by simp
  qed
  have fb2: "first_bit False (data ?pgd) (num_records_per_page (file_hdr ?fh2)) = Some sno"
    using next_bit_cong [OF fb [unfolded first_bit_def] lt bits]
    by (simp add: first_bit_def)
  have sr2: "slot_in_range (file_hdr ?fh2) ?pgd sno"
    using sr l1 by (simp add: slot_in_range_def)
  have "insert_record ?fh2 buf = (Inr (Rid pno sno), insert_result ?fh2 pno ?pgd sno buf)"
    using lt br by (intro insert_record_eq [OF cr2 fb2 _ sr2]) simp_all
  moreover have "write_page ?hdr ?pgd sno buf = write_page ?hdr pg sno buf"
    using write_page_again [OF sr br ir] by (simp add: w)
  then have "insert_result ?fh2 pno ?pgd sno buf = insert_result fh1 pno pg sno buf"
    by (simp add: insert_result_def Let_def)
  ultimately show ?thesis using del r fh' by simp
qed

theorem insert_delete_insert_witness:
  "insert_record fh_empty [65, 65] = (Inr (Rid 1 0), fh_one) \<and>
   (\<exists>fh2. delete_record fh_one (Rid 1 0) = (Inr (), fh2) \<and>
      insert_record fh2 [65, 65] = (Inr (Rid 1 0), fh_one))"
  using insert_delete_insert [OF insert_fh_empty] insert_fh_empty by simp






text \<open>
  Claim C7, as amended. From a validly initialised file, every history of record-manager
  calls in which every call that changes the record at a position names a slot of the
  page (\<open>0 \<le> slot_no < num_records_per_page\<close>) and every buffer holds \<open>record_size\<close>
  bytes returns, and in the file it leaves the population count of the bitmap of every
  data page equals the page's \<open>num_records\<close>. As the history is arbitrary, this holds
  after every single call.
\<close>

theorem popcount_invariant:
  assumes "rm_wf fh" and "\<forall>c \<in> set cs. call_ok (file_hdr fh) c"
  shows "\<exists>rs fh'. rm_run fh cs = Some (rs, fh') \<and> popcount_ok fh'"
proof -
  from rm_wf_inv [OF assms(1)] obtain ps where inv: "rm_inv fh ps" ..
  from assms(1) have pc: "popcount_ok fh" by (simp add: rm_wf_def)
  from rm_run_popcount [OF inv pc assms(2)] show ?thesis by blast
qed

theorem popcount_invariant_witness:
  "rm_wf fh_empty \<and> list_all (call_ok (file_hdr fh_empty)) calls_fill \<and>
   map_option fst (rm_run fh_empty calls_fill) =
     Some [Inr (Inserted (Rid 1 0)), Inr (Inserted (Rid 1 1)), Inr (Inserted (Rid 1 2)),
           Inr (Inserted (Rid 2 0)), Inr Done, Inr Done, Inr Done, Inr Done] \<and>
   popcount_ok (snd (the (rm_run fh_empty calls_fill)))"
proof -
  from popcount_invariant [OF fh_empty_wf calls_fill_ok] obtain rs fh' where
    "rm_run fh_empty calls_fill = Some (rs, fh')" and "popcount_ok fh'" by blast
  with fh_empty_wf calls_fill_ok calls_fill_results show ?thesis
    by (simp add: list_all_iff)
qed

text \<open>
  The claim as it stands, for calls with any record identifier, does not hold. On the
  validly initialised file with one record \<open>[65, 65]\<close> at \<open>(1, 0)\<close>, \<open>delete_record\<close>
  at \<open>(1, 9)\<close> finds bit 9 of the page set (a bit of the first byte of the record in
  slot 0), clears it and decrements \<open>num_records\<close>: the bitmap still has one bit set,
  and \<open>num_records\<close> is 0.
\<close>

theorem popcount_after_delete_past_slots_counterexample:
  "rm_wf fh_one \<and>
   rm_run fh_one [Delete_record (Rid 1 9)] = Some ([Inr Done], fh_past) \<and>
   popcount (file_hdr fh_past) (pages fh_past ! 0) = 1 \<and>
   num_records (pages fh_past ! 0) = 0 \<and>
   \<not> popcount_ok fh_past"
  by code_simp

end
